theory Spec2Isabelle
  imports Main "HOL-Library.AList"
begin

section \<open>Brute-force burst detection (report.py)\<close>

subsection \<open>Data model\<close>

text \<open>
  A timestamp is a \<^verbatim>\<open>datetime\<close> parsed with second resolution; it is modelled as the
  number of seconds since a fixed instant, so that the difference of two timestamps
  (a \<^verbatim>\<open>timedelta\<close>) is an integer number of seconds.
\<close>

type_synonym datetime = int
type_synonym timedelta = int

text \<open>
  Every operation that can raise in Python returns a sum: \<open>Inl\<close> is the exception.
\<close>

datatype py_error = ValueError | IndexError | OverflowError | OtherException

text \<open>
  One element of \<^verbatim>\<open>sus_incidents\<close>: the dict
  \<^verbatim>\<open>{"ip": ip, "count": count, "first": ..., "last": ...}\<close>. The source stores
  \<^verbatim>\<open>times[i].isoformat()\<close> and \<^verbatim>\<open>times[j].isoformat()\<close>; the model keeps the
  timestamps themselves (the rendering is one-to-one). The field \<open>last\<close> is written
  \<open>last'\<close>, since \<open>last\<close> is a list function of HOL.
\<close>

record incident =
  ip :: string
  count :: int
  first :: datetime
  last' :: datetime

text \<open>
  \<^verbatim>\<open>timedelta(minutes=max_minutes)\<close>, in seconds. A \<^verbatim>\<open>timedelta\<close> holds between
  \<open>-999999999\<close> and \<open>999999999\<close> days, the days being the seconds divided by 86400 and
  rounded down; outside this range the constructor raises \<^verbatim>\<open>OverflowError\<close>.
\<close>

definition timedelta_minutes :: "int \<Rightarrow> py_error + timedelta" where
  "timedelta_minutes max_minutes =
     (if - 999999999 \<le> (60 * max_minutes) div 86400 \<and>
         (60 * max_minutes) div 86400 \<le> 999999999
      then Inr (60 * max_minutes)
      else Inl OverflowError)"

subsection \<open>The two loops of \<^verbatim>\<open>brute_force\<close>\<close>

text \<open>
  The inner loop, for a fixed start index \<open>i\<close>:
  \<^verbatim>\<open>while j + 1 < n and (times[j + 1] - times[i]) <= window: j += 1\<close>.
  It returns the final \<open>j\<close>.
\<close>

function expand :: "datetime list \<Rightarrow> timedelta \<Rightarrow> nat \<Rightarrow> nat \<Rightarrow> nat" where
  "expand ts window i j =
     (if j + 1 < length ts \<and> ts ! (j + 1) - ts ! i \<le> window
      then expand ts window i (j + 1)
      else j)"
  by pat_completeness auto
termination
  by (relation "measure (\<lambda>(ts, window, i, j). length ts - j)") auto

declare expand.simps [simp del]

lemma expand_ge: "j \<le> expand ts window i j"
proof (induction ts window i j rule: expand.induct)
  case (1 ts window i j)
  show ?case
  proof (cases "j + 1 < length ts \<and> ts ! (j + 1) - ts ! i \<le> window")
    case True
    with 1 have "j + 1 \<le> expand ts window i (j + 1)" by simp
    moreover from True have "expand ts window i j = expand ts window i (j + 1)"
      by (subst expand.simps) simp
    ultimately show ?thesis by simp
  next
    case False
    then have "expand ts window i j = j" by (subst expand.simps) auto
    then show ?thesis by simp
  qed
qed

text \<open>
  The outer loop \<^verbatim>\<open>while i < n\<close> for one dictionary entry \<^verbatim>\<open>(ip, times)\<close>; \<open>sus\<close> is
  the list \<^verbatim>\<open>sus_incidents\<close>, which the loop appends to.
\<close>

function scan ::
  "string \<Rightarrow> datetime list \<Rightarrow> timedelta \<Rightarrow> int \<Rightarrow> nat \<Rightarrow> incident list \<Rightarrow> incident list"
where
  "scan ip_key ts window threshold i sus =
     (if i < length ts then
        (let j = expand ts window i i;
             cnt = int (j - i + 1)
         in if threshold \<le> cnt
            then scan ip_key ts window threshold (j + 1)
                   (sus @ [\<lparr>ip = ip_key, count = cnt, first = ts ! i, last' = ts ! j\<rparr>])
            else scan ip_key ts window threshold (i + 1) sus)
      else sus)"
  by pat_completeness auto
termination
proof (relation "measure (\<lambda>(ip_key, ts, window, threshold, i, sus). length ts - i)")
  show "wf (measure (\<lambda>(ip_key, ts, window, threshold, i, sus). length ts - i))"
    by simp
next
  fix ip_key :: string and ts :: "datetime list" and window threshold :: int
    and i :: nat and sus :: "incident list" and x xa
  assume "i < length ts" and "x = expand ts window i i"
  then have "i \<le> x" by (simp add: expand_ge)
  with \<open>i < length ts\<close>
  show "((ip_key, ts, window, threshold, x + 1,
           sus @ [\<lparr>ip = ip_key, count = xa, first = ts ! i, last' = ts ! x\<rparr>]),
          ip_key, ts, window, threshold, i, sus)
        \<in> measure (\<lambda>(ip_key, ts, window, threshold, i, sus). length ts - i)"
    by simp
next
  fix ip_key :: string and ts :: "datetime list" and window threshold :: int
    and i :: nat and sus :: "incident list"
  assume "i < length ts"
  then show "((ip_key, ts, window, threshold, i + 1, sus),
          ip_key, ts, window, threshold, i, sus)
        \<in> measure (\<lambda>(ip_key, ts, window, threshold, i, sus). length ts - i)"
    by simp
qed

declare scan.simps [simp del]

text \<open>
  The \<^verbatim>\<open>for ip, times in per_ip_timestamps.items()\<close> loop. A dict is modelled as the
  list of its items in insertion order. \<^verbatim>\<open>times.sort()\<close> sorts the list object held
  by the dict in place, so the dict after the loop is part of the result: the function
  returns the dict as the loop leaves it, and \<^verbatim>\<open>sus_incidents\<close>.
\<close>

fun for_items ::
  "(string \<times> datetime list) list \<Rightarrow> timedelta \<Rightarrow> int \<Rightarrow> incident list \<Rightarrow>
   (string \<times> datetime list) list \<times> incident list"
where
  "for_items [] window threshold sus = ([], sus)"
| "for_items ((ip_key, ts) # rest) window threshold sus =
     (let ts' = sort ts;
          sus' = scan ip_key ts' window threshold 0 sus;
          (rest', sus'') = for_items rest window threshold sus'
      in ((ip_key, ts') # rest', sus''))"

text \<open>
  \<^verbatim>\<open>brute_force\<close>. The first component of the result is the dict as the call leaves it,
  whether it returns or raises; the second is the list it returns, or the exception.
  Line 66 builds the window before anything is sorted: when the constructor raises, the
  dict is untouched.
\<close>

definition brute_force ::
  "(string \<times> datetime list) list \<Rightarrow> int \<Rightarrow> int \<Rightarrow>
   (string \<times> datetime list) list \<times> (py_error + incident list)"
where
  "brute_force per_ip_timestamps max_minutes threshold =
     (case timedelta_minutes max_minutes of
        Inl e \<Rightarrow> (per_ip_timestamps, Inl e)
      | Inr window \<Rightarrow>
          (let (per_ip_timestamps', sus_incidents) =
                 for_items per_ip_timestamps window threshold []
           in (per_ip_timestamps', Inr sus_incidents)))"

text \<open>The incidents that one entry of the dict adds: the outer loop run on the sorted list.\<close>

definition detect_one :: "timedelta \<Rightarrow> int \<Rightarrow> string \<times> datetime list \<Rightarrow> incident list" where
  "detect_one window threshold e = scan (fst e) (sort (snd e)) window threshold 0 []"

subsection \<open>The loops without a termination argument\<close>

text \<open>
  The same two \<^verbatim>\<open>while\<close> loops as partial functions: \<open>None\<close> is a loop that never
  returns. Nothing about their termination is assumed in these definitions.
\<close>

partial_function (option) expand_loop ::
  "datetime list \<Rightarrow> timedelta \<Rightarrow> nat \<Rightarrow> nat \<Rightarrow> nat option"
where
  "expand_loop ts window i j =
     (if j + 1 < length ts \<and> ts ! (j + 1) - ts ! i \<le> window
      then expand_loop ts window i (j + 1)
      else Some j)"

partial_function (option) scan_loop ::
  "string \<Rightarrow> datetime list \<Rightarrow> timedelta \<Rightarrow> int \<Rightarrow> nat \<Rightarrow> incident list \<Rightarrow>
   incident list option"
where
  "scan_loop ip_key ts window threshold i sus =
     (if i < length ts then
        Option.bind (expand_loop ts window i i) (\<lambda>j.
          if threshold \<le> int (j - i + 1)
          then scan_loop ip_key ts window threshold (j + 1)
                 (sus @ [\<lparr>ip = ip_key, count = int (j - i + 1),
                          first = ts ! i, last' = ts ! j\<rparr>])
          else scan_loop ip_key ts window threshold (i + 1) sus)
      else Some sus)"

fun for_items_loop ::
  "(string \<times> datetime list) list \<Rightarrow> timedelta \<Rightarrow> int \<Rightarrow> incident list \<Rightarrow>
   ((string \<times> datetime list) list \<times> incident list) option"
where
  "for_items_loop [] window threshold sus = Some ([], sus)"
| "for_items_loop ((ip_key, ts) # rest) window threshold sus =
     Option.bind (scan_loop ip_key (sort ts) window threshold 0 sus) (\<lambda>sus'.
       Option.bind (for_items_loop rest window threshold sus') (\<lambda>(rest', sus'').
         Some ((ip_key, sort ts) # rest', sus'')))"

definition brute_force_loop ::
  "(string \<times> datetime list) list \<Rightarrow> int \<Rightarrow> int \<Rightarrow>
   ((string \<times> datetime list) list \<times> (py_error + incident list)) option"
where
  "brute_force_loop per_ip_timestamps max_minutes threshold =
     (case timedelta_minutes max_minutes of
        Inl e \<Rightarrow> Some (per_ip_timestamps, Inl e)
      | Inr window \<Rightarrow>
          Option.bind (for_items_loop per_ip_timestamps window threshold [])
            (\<lambda>(per_ip_timestamps', sus_incidents).
               Some (per_ip_timestamps', Inr sus_incidents)))"

subsection \<open>The clusters behind the incidents\<close>

text \<open>
  The index pairs \<open>(i, j)\<close> at which the outer loop, started at index \<open>i\<close>, appends an
  incident, in the order it appends them. The source does not store the indices; this
  trace is what the statements about index ranges are made of, and \<open>scan_clusters\<close>
  below shows that the incidents are exactly the images of these pairs.
\<close>

function clusters :: "datetime list \<Rightarrow> timedelta \<Rightarrow> int \<Rightarrow> nat \<Rightarrow> (nat \<times> nat) list" where
  "clusters ts window threshold i =
     (if i < length ts then
        (let j = expand ts window i i
         in if threshold \<le> int (j - i + 1)
            then (i, j) # clusters ts window threshold (j + 1)
            else clusters ts window threshold (i + 1))
      else [])"
  by pat_completeness auto
termination
proof (relation "measure (\<lambda>(ts, window, threshold, i). length ts - i)")
  show "wf (measure (\<lambda>(ts, window, threshold, i). length ts - i))"
    by simp
next
  fix ts :: "datetime list" and window threshold :: int and i x :: nat
  assume "i < length ts" and "x = expand ts window i i"
  then have "i \<le> x" by (simp add: expand_ge)
  with \<open>i < length ts\<close>
  show "((ts, window, threshold, x + 1), ts, window, threshold, i)
        \<in> measure (\<lambda>(ts, window, threshold, i). length ts - i)"
    by simp
next
  fix ts :: "datetime list" and window threshold :: int and i :: nat
  assume "i < length ts"
  then show "((ts, window, threshold, i + 1), ts, window, threshold, i)
        \<in> measure (\<lambda>(ts, window, threshold, i). length ts - i)"
    by simp
qed

declare clusters.simps [simp del]

definition incident_of :: "string \<Rightarrow> datetime list \<Rightarrow> nat \<times> nat \<Rightarrow> incident" where
  "incident_of ip_key ts c =
     \<lparr>ip = ip_key, count = int (snd c - fst c + 1), first = ts ! fst c, last' = ts ! snd c\<rparr>"

section \<open>The line parser (report.py, \<^verbatim>\<open>parse_auth_line\<close>)\<close>

text \<open>
  A Python \<^verbatim>\<open>str\<close> is modelled as a \<open>string\<close> whose characters are code points below
  256. Every operation that can raise returns a sum, as above.
\<close>

text \<open>\<^verbatim>\<open>str.isspace\<close> on one character: the white space that \<^verbatim>\<open>str.split()\<close> splits at.\<close>

definition isspace :: "char \<Rightarrow> bool" where
  "isspace c = (of_char c \<in> set [9, 10, 11, 12, 13, 28, 29, 30, 31, 32, 133, 160 :: nat])"

text \<open>
  \<^verbatim>\<open>line.split()\<close>: the maximal runs of characters that are not white space, in order.
  \<open>cur\<close> is the token being read.
\<close>

fun split_from :: "string \<Rightarrow> string \<Rightarrow> string list" where
  "split_from cur [] = (if cur = [] then [] else [cur])"
| "split_from cur (c # cs) =
     (if isspace c
      then (if cur = [] then split_from [] cs else cur # split_from [] cs)
      else split_from (cur @ [c]) cs)"

definition py_split :: "string \<Rightarrow> string list" where
  "py_split line = split_from [] line"

text \<open>\<^verbatim>\<open>sep.join(xs)\<close>.\<close>

fun join :: "string \<Rightarrow> string list \<Rightarrow> string" where
  "join sep [] = []"
| "join sep [x] = x"
| "join sep (x # y # ys) = x @ sep @ join sep (y # ys)"

text \<open>\<^verbatim>\<open>s.startswith(p)\<close>, and the substring test \<^verbatim>\<open>sub in s\<close>.\<close>

fun startswith :: "string \<Rightarrow> string \<Rightarrow> bool" where
  "startswith s [] = True"
| "startswith [] (p # ps) = False"
| "startswith (c # cs) (p # ps) = (c = p \<and> startswith cs ps)"

fun contains :: "string \<Rightarrow> string \<Rightarrow> bool" where
  "contains sub [] = (sub = [])"
| "contains sub (c # cs) = (startswith (c # cs) sub \<or> contains sub cs)"

text \<open>\<^verbatim>\<open>xs.index(x)\<close>: the first position of \<open>x\<close>, \<^verbatim>\<open>ValueError\<close> when there is none.\<close>

fun index :: "'a list \<Rightarrow> 'a \<Rightarrow> py_error + nat" where
  "index [] x = Inl ValueError"
| "index (y # ys) x =
     (if y = x then Inr 0
      else case index ys x of Inl e \<Rightarrow> Inl e | Inr n \<Rightarrow> Inr (n + 1))"

text \<open>\<^verbatim>\<open>xs[n]\<close> for \<open>n \<ge> 0\<close>: \<^verbatim>\<open>IndexError\<close> out of range.\<close>

definition getitem :: "'a list \<Rightarrow> nat \<Rightarrow> py_error + 'a" where
  "getitem xs n = (if n < length xs then Inr (xs ! n) else Inl IndexError)"

text \<open>
  \<^verbatim>\<open>s.strip(chars)\<close> removes the characters of \<open>chars\<close> from both ends of \<open>s\<close>;
  \<^verbatim>\<open>lstrip\<close> and \<^verbatim>\<open>rstrip\<close> are its two halves.
\<close>

definition lstrip :: "string \<Rightarrow> string \<Rightarrow> string" where
  "lstrip s chars = dropWhile (\<lambda>c. c \<in> set chars) s"

definition rstrip :: "string \<Rightarrow> string \<Rightarrow> string" where
  "rstrip s chars = rev (dropWhile (\<lambda>c. c \<in> set chars) (rev s))"

definition strip :: "string \<Rightarrow> string \<Rightarrow> string" where
  "strip s chars = rstrip (lstrip s chars) chars"

text \<open>Lines 37 to 41: the event type, by substring, in this order.\<close>

definition event_type_of :: "string \<Rightarrow> string" where
  "event_type_of line =
     (if contains ''Failed password'' line then ''failed''
      else if contains ''Accepted password'' line \<or> contains ''Accepted publickey'' line
      then ''accepted''
      else ''other'')"

text \<open>
  Lines 43 to 54: the address after the token \<^verbatim>\<open>from\<close>. The \<^verbatim>\<open>try\<close> block catches
  \<^verbatim>\<open>ValueError\<close> only; any other exception leaves the function.
\<close>

definition extract_ip :: "string \<Rightarrow> string list \<Rightarrow> py_error + string option" where
  "extract_ip line parts =
     (if contains '' from '' line then
        (case index parts ''from'' of
           Inl e \<Rightarrow> (if e = ValueError then Inr None else Inl e)
         | Inr idx \<Rightarrow>
             (if idx + 1 < length parts then
                (case getitem parts (idx + 1) of
                   Inl e \<Rightarrow> (if e = ValueError then Inr None else Inl e)
                 | Inr ip_candidate \<Rightarrow> Inr (Some (strip ip_candidate '',;'')))
              else Inr None))
      else Inr None)"

text \<open>
  \<^verbatim>\<open>parse_auth_line\<close>. \<^verbatim>\<open>datetime.strptime\<close> is a library function and a parameter
  of the model: \<open>strptime s fmt\<close> is \<open>Inr\<close> of the timestamp, or \<open>Inl\<close> of the exception
  it raises, which \<^verbatim>\<open>except Exception\<close> catches whatever it is.
\<close>

definition parse_auth_line ::
  "(string \<Rightarrow> string \<Rightarrow> py_error + datetime) \<Rightarrow> string \<Rightarrow>
   py_error + (datetime option \<times> string option \<times> string)"
where
  "parse_auth_line strptime line =
     (let parts = py_split line in
      if length parts < 3 then Inr (None, None, ''other'')
      else
        (let ts_str = join '' '' (take 3 parts) in
         (case strptime (''2025 '' @ ts_str) ''%Y %b %d %H:%M:%S'' of
            Inl e \<Rightarrow> Inr (None, None, ''other'')
          | Inr ts \<Rightarrow>
              (let event_type = event_type_of line in
               (case extract_ip line parts of
                  Inl e \<Rightarrow> Inl e
                | Inr ip_found \<Rightarrow> Inr (Some ts, ip_found, event_type))))))"

text \<open>
  The origin as claim C6 words it, for comparison with the code: the token after the
  first token \<^verbatim>\<open>from\<close>, with trailing \<^verbatim>\<open>,\<close> and \<^verbatim>\<open>;\<close> removed; absent when there is no
  token \<^verbatim>\<open>from\<close> or nothing after it.
\<close>

definition spec_origin :: "string \<Rightarrow> string option" where
  "spec_origin line =
     (let parts = py_split line in
      case index parts ''from'' of
        Inl e \<Rightarrow> None
      | Inr idx \<Rightarrow>
          (if idx + 1 < length parts then Some (rstrip (parts ! (idx + 1)) '',;'')
           else None))"

text \<open>
  One behaviour of \<^verbatim>\<open>strptime\<close>, used in the closed examples only (the theorems hold for
  every behaviour): it accepts the timestamp of 10 March 2025, 13:58:01, as the number of
  seconds since the start of 2025, and raises \<^verbatim>\<open>ValueError\<close> on every other string.
\<close>

definition strptime_example :: "string \<Rightarrow> string \<Rightarrow> py_error + datetime" where
  "strptime_example s fmt =
     (if s = ''2025 Mar 10 13:58:01'' \<and> fmt = ''%Y %b %d %H:%M:%S''
      then Inr 5925481 else Inl ValueError)"

section \<open>Aggregation and ranking (report.py, \<^verbatim>\<open>main\<close>)\<close>

text \<open>\<^verbatim>\<open>d.get(k, default)\<close> on a dict given as the list of its items.\<close>

definition dict_get :: "('k \<times> 'v) list \<Rightarrow> 'k \<Rightarrow> 'v \<Rightarrow> 'v" where
  "dict_get d k dflt = (case map_of d k of None \<Rightarrow> dflt | Some v \<Rightarrow> v)"

text \<open>
  Lines 137 to 139: \<^verbatim>\<open>summary[inc["ip"]] = summary.get(inc["ip"], 0) + inc["count"]\<close> for
  every incident. An assignment to a key of the dict keeps the key's place; a new key goes
  last: this is \<open>AList.update\<close>.
\<close>

fun summarize :: "incident list \<Rightarrow> (string \<times> int) list \<Rightarrow> (string \<times> int) list" where
  "summarize [] summary = summary"
| "summarize (inc # rest) summary =
     summarize rest
       (AList.update (ip inc) (dict_get summary (ip inc) 0 + count inc) summary)"

text \<open>Line 144: \<^verbatim>\<open>{ip: len(times) for ip, times in per_ip_timestamps.items()}\<close>.\<close>

fun raw_counts ::
  "(string \<times> datetime list) list \<Rightarrow> (string \<times> int) list \<Rightarrow> (string \<times> int) list"
where
  "raw_counts [] d = d"
| "raw_counts ((ip_key, ts) # rest) d =
     raw_counts rest (AList.update ip_key (int (length ts)) d)"

text \<open>Lines 142 to 144: \<^verbatim>\<open>if not summary and per_ip_timestamps: summary = ...\<close>.\<close>

definition fallback ::
  "(string \<times> int) list \<Rightarrow> (string \<times> datetime list) list \<Rightarrow> (string \<times> int) list"
where
  "fallback summary per_ip_timestamps =
     (if summary = [] \<and> per_ip_timestamps \<noteq> [] then raw_counts per_ip_timestamps []
      else summary)"

text \<open>
  \<^verbatim>\<open>sorted(xs, key=key, reverse=True)\<close> for an integer key: descending, and stable (elements
  with equal keys keep their order, also under \<^verbatim>\<open>reverse=True\<close>).
\<close>

definition sorted_reverse :: "('a \<Rightarrow> int) \<Rightarrow> 'a list \<Rightarrow> 'a list" where
  "sorted_reverse key xs = sort_key (\<lambda>x. - key x) xs"

text \<open>The distinct elements of a list, in the order of their first occurrence.\<close>

definition first_seen :: "'a list \<Rightarrow> 'a list" where
  "first_seen xs = rev (remdups (rev xs))"

text \<open>Lines 137 to 147: from the incidents and the per-address timestamps to \<^verbatim>\<open>top_attackers\<close>.\<close>

definition aggregate ::
  "incident list \<Rightarrow> (string \<times> datetime list) list \<Rightarrow> (string \<times> int) list"
where
  "aggregate sus_incidents per_ip_timestamps =
     sorted_reverse snd (fallback (summarize sus_incidents []) per_ip_timestamps)"

text \<open>
  The body of \<^verbatim>\<open>main\<close> from line 125 on, as a function of the dict \<^verbatim>\<open>per_ip_timestamps\<close>
  that the reading loop built: the detector is called with \<^verbatim>\<open>max_minutes=10\<close> and
  \<^verbatim>\<open>threshold=5\<close>, and the dict it leaves behind is the one the fallback reads. The result
  is what \<^verbatim>\<open>main\<close> prints, saves and plots, \<^verbatim>\<open>sus_incidents\<close> and \<^verbatim>\<open>top_attackers\<close>, or
  the exception of the detector, which \<^verbatim>\<open>main\<close> does not catch.
\<close>

definition main ::
  "(string \<times> datetime list) list \<Rightarrow> py_error + (incident list \<times> (string \<times> int) list)"
where
  "main per_ip_timestamps =
     (let (per_ip_timestamps', result) = brute_force per_ip_timestamps 10 5
      in case result of
           Inl e \<Rightarrow> Inl e
         | Inr sus_incidents \<Rightarrow>
             Inr (sus_incidents, aggregate sus_incidents per_ip_timestamps'))"

section \<open>Properties of the detector\<close>

subsection \<open>The inner loop\<close>

lemma expand_lt: "j < length ts \<Longrightarrow> expand ts window i j < length ts"
proof (induction ts window i j rule: expand.induct)
  case (1 ts window i j)
  show ?case
  proof (cases "j + 1 < length ts \<and> ts ! (j + 1) - ts ! i \<le> window")
    case True
    with 1 have "expand ts window i (j + 1) < length ts" by simp
    moreover from True have "expand ts window i j = expand ts window i (j + 1)"
      by (subst expand.simps) simp
    ultimately show ?thesis by simp
  next
    case False
    then have "expand ts window i j = j" by (subst expand.simps) auto
    with 1 show ?thesis by simp
  qed
qed

lemma expand_within:
  "j < k \<Longrightarrow> k \<le> expand ts window i j \<Longrightarrow> ts ! k - ts ! i \<le> window"
proof (induction ts window i j rule: expand.induct)
  case (1 ts window i j)
  show ?case
  proof (cases "j + 1 < length ts \<and> ts ! (j + 1) - ts ! i \<le> window")
    case True
    then have e: "expand ts window i j = expand ts window i (j + 1)"
      by (subst expand.simps) simp
    show ?thesis
    proof (cases "k = j + 1")
      case True
      with \<open>j + 1 < length ts \<and> ts ! (j + 1) - ts ! i \<le> window\<close> show ?thesis by simp
    next
      case False
      with "1.prems" have "j + 1 < k" by simp
      with 1 True e show ?thesis by simp
    qed
  next
    case False
    then have "expand ts window i j = j" by (subst expand.simps) auto
    with "1.prems" show ?thesis by simp
  qed
qed

lemma expand_stop:
  "expand ts window i j + 1 < length ts \<Longrightarrow>
   window < ts ! (expand ts window i j + 1) - ts ! i"
proof (induction ts window i j rule: expand.induct)
  case (1 ts window i j)
  show ?case
  proof (cases "j + 1 < length ts \<and> ts ! (j + 1) - ts ! i \<le> window")
    case True
    then have e: "expand ts window i j = expand ts window i (j + 1)"
      by (subst expand.simps) simp
    with 1 True show ?thesis by simp
  next
    case False
    then have "expand ts window i j = j" by (subst expand.simps) auto
    with "1.prems" False show ?thesis by auto
  qed
qed

lemma expand_reach:
  "j \<le> J \<Longrightarrow> J < length ts \<Longrightarrow> (\<And>k. j < k \<Longrightarrow> k \<le> J \<Longrightarrow> ts ! k - ts ! i \<le> window) \<Longrightarrow>
   J \<le> expand ts window i j"
proof (induction ts window i j rule: expand.induct)
  case (1 ts window i j)
  show ?case
  proof (cases "j = J")
    case True
    then show ?thesis by (simp add: expand_ge)
  next
    case False
    with "1.prems" have lt: "j + 1 \<le> J" by simp
    with "1.prems" have c: "j + 1 < length ts \<and> ts ! (j + 1) - ts ! i \<le> window" by simp
    then have e: "expand ts window i j = expand ts window i (j + 1)"
      by (subst expand.simps) simp
    have "J \<le> expand ts window i (j + 1)"
      using c lt "1.prems" by (intro "1.IH") auto
    with e show ?thesis by simp
  qed
qed

lemma scan_clusters:
  "scan ip_key ts window threshold i sus =
   sus @ map (incident_of ip_key ts) (clusters ts window threshold i)"
proof (induction ts window threshold i arbitrary: sus rule: clusters.induct)
  case (1 ts window threshold i)
  show ?case
  proof (cases "i < length ts")
    case False
    then show ?thesis
      by (subst scan.simps, subst clusters.simps) simp
  next
    case True
    note lt = this
    show ?thesis
    proof (cases "threshold \<le> int (expand ts window i i - i + 1)")
      case True
      with lt 1 show ?thesis
        by (subst scan.simps, subst clusters.simps) (simp add: Let_def incident_of_def)
    next
      case False
      with lt 1 show ?thesis
        by (subst scan.simps, subst clusters.simps) (simp add: Let_def)
    qed
  qed
qed

lemma detect_one_clusters:
  "detect_one window threshold e =
   map (incident_of (fst e) (sort (snd e))) (clusters (sort (snd e)) window threshold 0)"
  by (simp add: detect_one_def scan_clusters)

lemma for_items_fst:
  "fst (for_items m window threshold sus) = map (\<lambda>(ip_key, ts). (ip_key, sort ts)) m"
  by (induction m window threshold sus rule: for_items.induct)
     (simp_all add: Let_def case_prod_beta)

lemma for_items_snd:
  "snd (for_items m window threshold sus) =
   sus @ concat (map (detect_one window threshold) m)"
  by (induction m window threshold sus rule: for_items.induct)
     (simp_all add: Let_def case_prod_beta scan_clusters detect_one_clusters)

lemma clusters_props:
  "(a, b) \<in> set (clusters ts window threshold i) \<Longrightarrow>
   i \<le> a \<and> a \<le> b \<and> b < length ts \<and> b = expand ts window a a \<and> threshold \<le> int (b - a + 1)"
proof (induction ts window threshold i rule: clusters.induct)
  case (1 ts window threshold i)
  show ?case
  proof (cases "i < length ts")
    case False
    with "1.prems" show ?thesis by (subst (asm) clusters.simps) simp
  next
    case True
    note lt = this
    have ge: "i \<le> expand ts window i i" by (rule expand_ge)
    show ?thesis
    proof (cases "threshold \<le> int (expand ts window i i - i + 1)")
      case True
      with lt "1.prems"
      have "(a, b) = (i, expand ts window i i) \<or>
            (a, b) \<in> set (clusters ts window threshold (expand ts window i i + 1))"
        by (subst (asm) clusters.simps) (simp add: Let_def)
      then show ?thesis
      proof
        assume "(a, b) = (i, expand ts window i i)"
        with True lt ge show ?thesis by (simp add: expand_lt)
      next
        assume "(a, b) \<in> set (clusters ts window threshold (expand ts window i i + 1))"
        from "1.IH"(1) [OF lt refl True this] ge show ?thesis by linarith
      qed
    next
      case False
      with lt "1.prems" have "(a, b) \<in> set (clusters ts window threshold (i + 1))"
        by (subst (asm) clusters.simps) (simp add: Let_def)
      from "1.IH"(2) [OF lt refl False this] show ?thesis by linarith
    qed
  qed
qed

lemma clusters_sorted:
  "sorted_wrt (\<lambda>c d. snd c < fst d) (clusters ts window threshold i)"
proof (induction ts window threshold i rule: clusters.induct)
  case (1 ts window threshold i)
  show ?case
  proof (cases "i < length ts")
    case False
    then show ?thesis by (subst clusters.simps) simp
  next
    case True
    note lt = this
    show ?thesis
    proof (cases "threshold \<le> int (expand ts window i i - i + 1)")
      case True
      have "\<forall>d \<in> set (clusters ts window threshold (expand ts window i i + 1)).
              expand ts window i i < fst d"
        using clusters_props [of _ _ ts window threshold "expand ts window i i + 1"]
        by fastforce
      with True lt "1.IH"(1) [OF lt refl True] show ?thesis
        by (subst clusters.simps) (simp add: Let_def)
    next
      case False
      with lt "1.IH"(2) [OF lt refl False] show ?thesis
        by (subst clusters.simps) (simp add: Let_def)
    qed
  qed
qed

lemma timedelta_minutes_range:
  "timedelta_minutes m =
     (if - 1439999998560 \<le> m \<and> m \<le> 1439999999999 then Inr (60 * m)
      else Inl OverflowError)"
proof -
  define q where "q = (60 * m) div 86400"
  define r where "r = (60 * m) mod 86400"
  have d: "60 * m = 86400 * q + r"
    unfolding q_def r_def by (rule mult_div_mod_eq [symmetric])
  have r: "0 \<le> r" "r < 86400" by (simp_all add: r_def)
  have "(- 999999999 \<le> q) = (- 1439999998560 \<le> m)" using d r by linarith
  moreover have "(q \<le> 999999999) = (m \<le> 1439999999999)" using d r by linarith
  ultimately show ?thesis by (simp add: timedelta_minutes_def q_def)
qed

lemma timedelta_minutes_Inr: "timedelta_minutes m = Inr window \<Longrightarrow> window = 60 * m"
  by (simp add: timedelta_minutes_def split: if_splits)

lemma timedelta_minutes_Inl: "timedelta_minutes m = Inl e \<Longrightarrow> e = OverflowError"
  by (simp add: timedelta_minutes_def split: if_splits)

lemma brute_force_returns:
  "timedelta_minutes max_minutes = Inr window \<Longrightarrow>
   brute_force per_ip max_minutes threshold =
   (map (\<lambda>(ip_key, ts). (ip_key, sort ts)) per_ip,
    Inr (concat (map (detect_one window threshold) per_ip)))"
  using for_items_fst [of per_ip window threshold "[]"]
    for_items_snd [of per_ip window threshold "[]"]
  by (simp add: brute_force_def case_prod_beta)

lemma brute_force_raises:
  "timedelta_minutes max_minutes = Inl e \<Longrightarrow>
   brute_force per_ip max_minutes threshold = (per_ip, Inl e)"
  by (simp add: brute_force_def)

lemma brute_force_Inr:
  assumes "snd (brute_force per_ip max_minutes threshold) = Inr sus"
  shows "timedelta_minutes max_minutes = Inr (60 * max_minutes)"
    and "sus = concat (map (detect_one (60 * max_minutes) threshold) per_ip)"
    and "fst (brute_force per_ip max_minutes threshold)
         = map (\<lambda>(ip_key, ts). (ip_key, sort ts)) per_ip"
proof -
  obtain window where w: "timedelta_minutes max_minutes = Inr window"
    using assms by (cases "timedelta_minutes max_minutes") (simp_all add: brute_force_raises)
  then have "window = 60 * max_minutes" by (rule timedelta_minutes_Inr)
  with w show "timedelta_minutes max_minutes = Inr (60 * max_minutes)" by simp
  from brute_force_returns [OF this, of per_ip threshold] assms
  show "sus = concat (map (detect_one (60 * max_minutes) threshold) per_ip)"
    and "fst (brute_force per_ip max_minutes threshold)
         = map (\<lambda>(ip_key, ts). (ip_key, sort ts)) per_ip"
    by simp_all
qed

lemma clusters_stop: "\<not> i < length ts \<Longrightarrow> clusters ts window threshold i = []"
  by (subst clusters.simps) simp

lemma clusters_emit:
  "i < length ts \<Longrightarrow> threshold \<le> int (expand ts window i i - i + 1) \<Longrightarrow>
   clusters ts window threshold i =
   (i, expand ts window i i) # clusters ts window threshold (expand ts window i i + 1)"
  by (subst clusters.simps) (simp add: Let_def)

lemma clusters_skip:
  "i < length ts \<Longrightarrow> \<not> threshold \<le> int (expand ts window i i - i + 1) \<Longrightarrow>
   clusters ts window threshold i = clusters ts window threshold (i + 1)"
  by (subst clusters.simps) (simp add: Let_def)

lemma expand_loop_eq: "expand_loop ts window i j = Some (expand ts window i j)"
proof (induction ts window i j rule: expand.induct)
  case (1 ts window i j)
  show ?case
  proof (cases "j + 1 < length ts \<and> ts ! (j + 1) - ts ! i \<le> window")
    case True
    with 1 show ?thesis
      by (subst expand_loop.simps, subst expand.simps) simp
  next
    case False
    then show ?thesis
      by (subst expand_loop.simps, subst expand.simps) auto
  qed
qed

lemma scan_loop_eq:
  "scan_loop ip_key ts window threshold i sus = Some (scan ip_key ts window threshold i sus)"
proof (induction ip_key ts window threshold i sus rule: scan.induct)
  case (1 ip_key ts window threshold i sus)
  show ?case
  proof (cases "i < length ts")
    case False
    then show ?thesis
      by (subst scan_loop.simps, subst scan.simps) simp
  next
    case True
    note lt = this
    show ?thesis
    proof (cases "threshold \<le> int (expand ts window i i - i + 1)")
      case True
      with lt "1.IH"(1) [OF lt refl refl True] show ?thesis
        by (subst scan_loop.simps, subst scan.simps) (simp add: expand_loop_eq Let_def)
    next
      case False
      with lt "1.IH"(2) [OF lt refl refl False] show ?thesis
        by (subst scan_loop.simps, subst scan.simps) (simp add: expand_loop_eq Let_def)
    qed
  qed
qed

lemma for_items_loop_eq:
  "for_items_loop m window threshold sus = Some (for_items m window threshold sus)"
  by (induction m window threshold sus rule: for_items.induct)
     (simp_all add: scan_loop_eq Let_def case_prod_beta)

lemma brute_force_loop_eq:
  "brute_force_loop per_ip max_minutes threshold =
   Some (brute_force per_ip max_minutes threshold)"
  by (cases "timedelta_minutes max_minutes")
     (simp_all add: brute_force_loop_def brute_force_def for_items_loop_eq case_prod_beta)

lemma expand_later_anchor:
  assumes "sorted ts" and "x \<le> z" and "z \<le> expand ts window x x" and "x < length ts"
  shows "expand ts window x x \<le> expand ts window z z"
proof (rule expand_reach)
  show "z \<le> expand ts window x x" by fact
  show "expand ts window x x < length ts" using assms(4) by (rule expand_lt)
next
  fix k assume k: "z < k" "k \<le> expand ts window x x"
  with assms(2) have "x < k" by simp
  then have a: "ts ! k - ts ! x \<le> window" using k(2) by (rule expand_within)
  have "k < length ts" using k(2) expand_lt [OF assms(4), of window x] by simp
  with assms(1,2) k(1) have "ts ! x \<le> ts ! z"
    by (intro sorted_nth_mono) auto
  with a show "ts ! k - ts ! z \<le> window" by simp
qed

lemma clusters_mono:
  assumes srt: "sorted ts" and le: "t1 \<le> t2"
  shows "x \<le> y \<Longrightarrow> length (clusters ts window t2 y) \<le> length (clusters ts window t1 x)"
proof (induction "length ts - x" arbitrary: x y rule: less_induct)
  case less
  show ?case
  proof (cases "x < length ts")
    case False
    with less.prems have "\<not> y < length ts" by simp
    then show ?thesis by (simp add: clusters_stop)
  next
    case True
    note xlt = this
    let ?j = "expand ts window x x"
    have jge: "x \<le> ?j" by (rule expand_ge)
    show ?thesis
    proof (cases "t1 \<le> int (?j - x + 1)")
      case False
      then have skip1: "clusters ts window t1 x = clusters ts window t1 (x + 1)"
        using xlt by (simp add: clusters_skip)
      show ?thesis
      proof (cases "x = y")
        case True
        from False le have "\<not> t2 \<le> int (?j - x + 1)" by simp
        then have "clusters ts window t2 x = clusters ts window t2 (x + 1)"
          using xlt by (simp add: clusters_skip)
        moreover have "length (clusters ts window t2 (x + 1))
                       \<le> length (clusters ts window t1 (x + 1))"
          using xlt by (intro less.hyps) auto
        ultimately show ?thesis using skip1 True by simp
      next
        case False
        with less.prems have "x + 1 \<le> y" by simp
        then have "length (clusters ts window t2 y) \<le> length (clusters ts window t1 (x + 1))"
          using xlt by (intro less.hyps) auto
        with skip1 show ?thesis by simp
      qed
    next
      case True
      then have emit1: "clusters ts window t1 x = (x, ?j) # clusters ts window t1 (?j + 1)"
        using xlt by (simp add: clusters_emit)
      have after: "length (clusters ts window t2 z) \<le> length (clusters ts window t1 (?j + 1))"
        if "?j + 1 \<le> z" for z
        using that xlt jge by (intro less.hyps) auto
      have inner: "x \<le> z \<Longrightarrow>
        length (clusters ts window t2 z) \<le> Suc (length (clusters ts window t1 (?j + 1)))" for z
      proof (induction "Suc ?j - z" arbitrary: z rule: less_induct)
        case (less z)
        show ?case
        proof (cases "z \<le> ?j")
          case False
          then have "?j + 1 \<le> z" by simp
          from after [OF this] show ?thesis by simp
        next
          case True
          then have zlt: "z < length ts" using expand_lt [OF xlt, of window x] by simp
          let ?k = "expand ts window z z"
          have kge: "?j \<le> ?k"
            using srt less.prems True xlt by (rule expand_later_anchor)
          show ?thesis
          proof (cases "t2 \<le> int (?k - z + 1)")
            case True
            then have "clusters ts window t2 z = (z, ?k) # clusters ts window t2 (?k + 1)"
              using zlt by (simp add: clusters_emit)
            moreover have "length (clusters ts window t2 (?k + 1))
                           \<le> length (clusters ts window t1 (?j + 1))"
              using kge by (intro after) simp
            ultimately show ?thesis by simp
          next
            case False
            then have "clusters ts window t2 z = clusters ts window t2 (z + 1)"
              using zlt by (simp add: clusters_skip)
            moreover have "length (clusters ts window t2 (z + 1))
                           \<le> Suc (length (clusters ts window t1 (?j + 1)))"
              using True less.prems by (intro less.hyps) auto
            ultimately show ?thesis by simp
          qed
        qed
      qed
      from inner [OF less.prems] emit1 show ?thesis by simp
    qed
  qed
qed

lemma detect_one_mono:
  "t1 \<le> t2 \<Longrightarrow> length (detect_one window t2 e) \<le> length (detect_one window t1 e)"
  using clusters_mono [of "sort (snd e)" t1 t2 0 0 window]
  by (simp add: detect_one_clusters)

lemma brute_force_mono:
  assumes "t1 \<le> t2"
    and "snd (brute_force per_ip max_minutes t1) = Inr sus1"
    and "snd (brute_force per_ip max_minutes t2) = Inr sus2"
  shows "length sus2 \<le> length sus1"
  unfolding brute_force_Inr(2) [OF assms(2)] brute_force_Inr(2) [OF assms(3)]
    length_concat map_map
  by (rule sum_list_mono) (simp add: detect_one_mono [OF assms(1)])

subsection \<open>The outer loop and the clusters\<close>

lemma clusters_cover:
  "threshold \<le> 1 \<Longrightarrow> i \<le> length ts \<Longrightarrow>
   sum_list (map (\<lambda>c. int (snd c - fst c + 1)) (clusters ts window threshold i))
   = int (length ts - i)"
proof (induction ts window threshold i rule: clusters.induct)
  case (1 ts window threshold i)
  show ?case
  proof (cases "i < length ts")
    case False
    with "1.prems" show ?thesis by (simp add: clusters_stop)
  next
    case True
    note lt = this
    let ?j = "expand ts window i i"
    have ge: "i \<le> ?j" by (rule expand_ge)
    have jlt: "?j < length ts" using lt by (rule expand_lt)
    from "1.prems"(1) have emit: "threshold \<le> int (?j - i + 1)" by simp
    have "sum_list (map (\<lambda>c. int (snd c - fst c + 1)) (clusters ts window threshold (?j + 1)))
          = int (length ts - (?j + 1))"
      using "1.IH"(1) [OF lt refl emit "1.prems"(1)] jlt by simp
    with ge jlt show ?thesis
      by (simp add: clusters_emit [OF lt emit])
  qed
qed

lemma detect_one_cover:
  "threshold \<le> 1 \<Longrightarrow>
   sum_list (map count (detect_one window threshold e)) = int (length (snd e))"
  using clusters_cover [of threshold 0 "sort (snd e)" window]
  by (simp add: detect_one_clusters incident_of_def comp_def)

lemma index_range_card:
  "j < n \<Longrightarrow> i \<le> j \<Longrightarrow> card {k. k < n \<and> i \<le> k \<and> k \<le> j} = j - i + 1"
proof -
  assume "j < n" "i \<le> j"
  then have "{k. k < n \<and> i \<le> k \<and> k \<le> j} = {i..j}" by auto
  with \<open>i \<le> j\<close> show ?thesis by simp
qed

lemma at_most_one_cluster:
  fixes cs :: "(nat \<times> nat) list"
  shows "sorted_wrt (\<lambda>c d. snd c < fst d) cs \<Longrightarrow>
   length (filter (\<lambda>c. fst c \<le> k \<and> k \<le> snd c) cs) \<le> 1"
proof (induction cs)
  case Nil
  then show ?case by simp
next
  case (Cons c cs)
  show ?case
  proof (cases "fst c \<le> k \<and> k \<le> snd c")
    case True
    have "\<not> (fst d \<le> k \<and> k \<le> snd d)" if "d \<in> set cs" for d
    proof -
      from Cons.prems that have "snd c < fst d" by simp
      with True show ?thesis by simp
    qed
    then have "filter (\<lambda>c. fst c \<le> k \<and> k \<le> snd c) cs = []"
      by (simp add: filter_empty_conv)
    with True show ?thesis by simp
  next
    case False
    with Cons show ?thesis by auto
  qed
qed

lemma clusters_bounds:
  assumes "c \<in> set (clusters ts window threshold i)"
  shows "fst c \<le> snd c" and "snd c < length ts"
  using clusters_props [of "fst c" "snd c" ts window threshold i] assms by auto

lemma clusters_increasing:
  "sorted_wrt (\<lambda>c d. fst c < fst d) (clusters ts window threshold i)"
proof (rule sorted_wrt_mono_rel [OF _ clusters_sorted])
  fix c d
  assume "c \<in> set (clusters ts window threshold i)" and "snd c < fst d"
  moreover from this(1) have "fst c \<le> snd c" by (rule clusters_bounds)
  ultimately show "fst c < fst d" by simp
qed

lemma detect_one_ip: "inc \<in> set (detect_one window threshold e) \<Longrightarrow> ip inc = fst e"
  by (auto simp: detect_one_clusters incident_of_def)

lemma filter_other_entries:
  "ip_key \<notin> fst ` set m \<Longrightarrow>
   filter (\<lambda>inc. ip inc = ip_key) (concat (map (detect_one window threshold) m)) = []"
  by (auto simp: filter_empty_conv dest!: detect_one_ip)

lemma filter_own_entry:
  "filter (\<lambda>inc. ip inc = fst e) (detect_one window threshold e) = detect_one window threshold e"
  by (simp add: filter_id_conv detect_one_ip)

lemma filter_by_ip:
  "distinct (map fst m) \<Longrightarrow> e \<in> set m \<Longrightarrow>
   filter (\<lambda>inc. ip inc = fst e) (concat (map (detect_one window threshold) m))
   = detect_one window threshold e"
proof (induction m)
  case Nil
  then show ?case by simp
next
  case (Cons a m)
  show ?case
  proof (cases "e = a")
    case True
    with Cons.prems have "fst e \<notin> fst ` set m" by simp
    then show ?thesis using True
      by (simp add: filter_other_entries filter_own_entry)
  next
    case False
    with Cons.prems have em: "e \<in> set m" and "fst a \<noteq> fst e" by force+
    then have "filter (\<lambda>inc. ip inc = fst e) (detect_one window threshold a) = []"
      by (auto simp: filter_empty_conv dest!: detect_one_ip)
    with Cons em show ?thesis by simp
  qed
qed

text \<open>
  Claim C1. For every dict of timestamp lists and every threshold of at least 1, every
  incident in the list that \<^verbatim>\<open>brute_force\<close> returns was appended for one entry
  \<open>(ip_key, ts)\<close> of the dict and one cluster \<open>(i, j)\<close> of its sorted list, where \<open>j\<close> is
  where the inner loop stopped when started at \<open>i\<close>: its count is \<open>j - i + 1\<close>, which is
  the number of indices of the sorted list in \<open>i..j\<close>, the count is at least the
  threshold, \<open>first\<close> is the sorted timestamp at \<open>i\<close>, \<open>last\<close> the one at \<open>j\<close>, and
  \<open>first \<le> last\<close>. The window is \<open>60 * max_minutes\<close> seconds.
\<close>

theorem incident_matches_cluster:
  assumes "1 \<le> threshold"
    and "snd (brute_force per_ip max_minutes threshold) = Inr sus"
    and "inc \<in> set sus"
  shows "\<exists>(ip_key, ts) \<in> set per_ip. \<exists>i j.
           (i, j) \<in> set (clusters (sort ts) (60 * max_minutes) threshold 0) \<and>
           j = expand (sort ts) (60 * max_minutes) i i \<and>
           i \<le> j \<and> j < length (sort ts) \<and>
           ip inc = ip_key \<and>
           count inc = int (j - i + 1) \<and>
           count inc = int (card {k. k < length (sort ts) \<and> i \<le> k \<and> k \<le> j}) \<and>
           threshold \<le> count inc \<and>
           first inc = sort ts ! i \<and>
           last' inc = sort ts ! j \<and>
           first inc \<le> last' inc"
proof -
  let ?w = "60 * max_minutes"
  from assms(3) brute_force_Inr(2) [OF assms(2)]
  obtain e0 where e0: "e0 \<in> set per_ip" "inc \<in> set (detect_one ?w threshold e0)"
    by auto
  obtain ip_key ts where "e0 = (ip_key, ts)" by (cases e0)
  with e0 have e: "(ip_key, ts) \<in> set per_ip"
    and "inc \<in> set (detect_one ?w threshold (ip_key, ts))"
    by simp_all
  then obtain c where c: "c \<in> set (clusters (sort ts) ?w threshold 0)"
    and inc: "inc = incident_of ip_key (sort ts) c"
    by (auto simp: detect_one_clusters)
  obtain i j where ij: "c = (i, j)" by (cases c)
  from c ij have cl: "(i, j) \<in> set (clusters (sort ts) ?w threshold 0)" by simp
  from clusters_props [OF cl]
  have p: "i \<le> j" "j < length (sort ts)" "threshold \<le> int (j - i + 1)"
    and jdef: "j = expand (sort ts) ?w i i"
    by blast+
  have ord: "sort ts ! i \<le> sort ts ! j"
    using p(1,2) by (intro sorted_nth_mono) simp_all
  have crd: "card {k. k < length (sort ts) \<and> i \<le> k \<and> k \<le> j} = j - i + 1"
    using p(2,1) by (rule index_range_card)
  have f: "ip inc = ip_key" "count inc = int (j - i + 1)"
    "first inc = sort ts ! i" "last' inc = sort ts ! j"
    using inc ij by (simp_all add: incident_of_def)
  have "(i, j) \<in> set (clusters (sort ts) ?w threshold 0) \<and>
     j = expand (sort ts) ?w i i \<and>
     i \<le> j \<and> j < length (sort ts) \<and>
     ip inc = ip_key \<and>
     count inc = int (j - i + 1) \<and>
     count inc = int (card {k. k < length (sort ts) \<and> i \<le> k \<and> k \<le> j}) \<and>
     threshold \<le> count inc \<and>
     first inc = sort ts ! i \<and>
     last' inc = sort ts ! j \<and>
     first inc \<le> last' inc"
    using cl jdef p ord f unfolding crd by (intro conjI) simp_all
  then have "\<exists>i j. (i, j) \<in> set (clusters (sort ts) ?w threshold 0) \<and>
     j = expand (sort ts) ?w i i \<and>
     i \<le> j \<and> j < length (sort ts) \<and>
     ip inc = ip_key \<and>
     count inc = int (j - i + 1) \<and>
     count inc = int (card {k. k < length (sort ts) \<and> i \<le> k \<and> k \<le> j}) \<and>
     threshold \<le> count inc \<and>
     first inc = sort ts ! i \<and>
     last' inc = sort ts ! j \<and>
     first inc \<le> last' inc"
    by (intro exI)
  with e show ?thesis by (intro bexI [of _ "(ip_key, ts)"]) simp_all
qed

theorem incident_matches_cluster_witness:
  "(1::int) \<le> 5 \<and>
   snd (brute_force [(''203.0.113.45'', [0, 60, 120, 180, 240])] 10 5)
     = Inr [\<lparr>ip = ''203.0.113.45'', count = 5, first = 0, last' = 240\<rparr>] \<and>
   (\<exists>(ip_key, ts) \<in> set [(''203.0.113.45'', [0, 60, 120, 180, 240 :: int])]. \<exists>i j.
      (i, j) \<in> set (clusters (sort ts) (60 * 10) 5 0) \<and>
      j = expand (sort ts) (60 * 10) i i \<and>
      i \<le> j \<and> j < length (sort ts) \<and>
      ''203.0.113.45'' = ip_key \<and>
      (5::int) = int (j - i + 1) \<and>
      (5::int) = int (card {k. k < length (sort ts) \<and> i \<le> k \<and> k \<le> j}) \<and>
      (0::int) = sort ts ! i \<and>
      (240::int) = sort ts ! j)"
proof -
  have h1: "(1::int) \<le> 5" by simp
  have h2: "snd (brute_force [(''203.0.113.45'', [0, 60, 120, 180, 240])] 10 5)
     = Inr [\<lparr>ip = ''203.0.113.45'', count = 5, first = 0, last' = 240\<rparr>]"
    by code_simp
  have h3: "\<lparr>ip = ''203.0.113.45'', count = 5, first = 0, last' = 240\<rparr>
     \<in> set [\<lparr>ip = ''203.0.113.45'', count = 5, first = 0, last' = 240\<rparr>]"
    by simp
  from incident_matches_cluster [OF h1 h2 h3] h1 h2 show ?thesis by simp
qed

text \<open>
  Claim C2. For an entry \<open>(ip_key, ts)\<close> of a dict (whose keys are distinct), the incidents
  of that address in the list that \<^verbatim>\<open>brute_force\<close> returns are, in order, the images of
  the clusters of the sorted list; the clusters' start indices are strictly increasing,
  each cluster ends before the next one starts, each is a non-empty range of indices of
  the list, and no index \<open>k\<close> lies in more than one cluster.
\<close>

theorem incidents_disjoint_increasing:
  assumes "distinct (map fst per_ip)" and "(ip_key, ts) \<in> set per_ip"
    and "snd (brute_force per_ip max_minutes threshold) = Inr sus"
  shows "filter (\<lambda>inc. ip inc = ip_key) sus
           = map (incident_of ip_key (sort ts))
               (clusters (sort ts) (60 * max_minutes) threshold 0) \<and>
         sorted_wrt (\<lambda>c d. fst c < fst d)
           (clusters (sort ts) (60 * max_minutes) threshold 0) \<and>
         sorted_wrt (\<lambda>c d. snd c < fst d)
           (clusters (sort ts) (60 * max_minutes) threshold 0) \<and>
         (\<forall>c \<in> set (clusters (sort ts) (60 * max_minutes) threshold 0).
            fst c \<le> snd c \<and> snd c < length ts) \<and>
         (\<forall>k. length (filter (\<lambda>c. fst c \<le> k \<and> k \<le> snd c)
                  (clusters (sort ts) (60 * max_minutes) threshold 0)) \<le> 1)"
proof -
  let ?cs = "clusters (sort ts) (60 * max_minutes) threshold 0"
  have "filter (\<lambda>inc. ip inc = ip_key) sus
        = detect_one (60 * max_minutes) threshold (ip_key, ts)"
    using filter_by_ip [OF assms(1,2), of "60 * max_minutes" threshold]
    by (simp add: brute_force_Inr(2) [OF assms(3)])
  then have "filter (\<lambda>inc. ip inc = ip_key) sus
        = map (incident_of ip_key (sort ts)) ?cs"
    by (simp add: detect_one_clusters)
  moreover have "sorted_wrt (\<lambda>c d. fst c < fst d) ?cs" by (rule clusters_increasing)
  moreover have s: "sorted_wrt (\<lambda>c d. snd c < fst d) ?cs" by (rule clusters_sorted)
  moreover have "\<forall>c \<in> set ?cs. fst c \<le> snd c \<and> snd c < length ts"
  proof
    fix c assume "c \<in> set ?cs"
    then show "fst c \<le> snd c \<and> snd c < length ts"
      using clusters_bounds [of c "sort ts"] by auto
  qed
  moreover have "\<forall>k. length (filter (\<lambda>c. fst c \<le> k \<and> k \<le> snd c) ?cs) \<le> 1"
    using at_most_one_cluster [OF s] by blast
  ultimately show ?thesis by blast
qed

theorem incidents_disjoint_increasing_witness:
  "distinct (map fst [(''a'', [0, 60, 120, 3000, 3010, 3020, 3000 :: int]), (''b'', [7, 7])]) \<and>
   (''a'', [0, 60, 120, 3000, 3010, 3020, 3000])
     \<in> set [(''a'', [0, 60, 120, 3000, 3010, 3020, 3000 :: int]), (''b'', [7, 7])] \<and>
   snd (brute_force [(''a'', [0, 60, 120, 3000, 3010, 3020, 3000]), (''b'', [7, 7])] 10 3)
   = Inr [\<lparr>ip = ''a'', count = 3, first = 0, last' = 120\<rparr>,
          \<lparr>ip = ''a'', count = 4, first = 3000, last' = 3020\<rparr>] \<and>
   filter (\<lambda>inc. ip inc = ''a'')
     [\<lparr>ip = ''a'', count = 3, first = 0, last' = 120\<rparr>,
      \<lparr>ip = ''a'', count = 4, first = 3000, last' = 3020\<rparr>]
   = map (incident_of ''a'' (sort [0, 60, 120, 3000, 3010, 3020, 3000]))
       (clusters (sort [0, 60, 120, 3000, 3010, 3020, 3000]) (60 * 10) 3 0) \<and>
   clusters (sort [0, 60, 120, 3000, 3010, 3020, 3000]) (60 * 10) 3 0
   = [(0, 2), (3, 6)]"
proof -
  let ?ts = "[0, 60, 120, 3000, 3010, 3020, 3000 :: int]"
  let ?m = "[(''a'', ?ts), (''b'', [7, 7])]"
  have h1: "distinct (map fst ?m)" by simp
  have h2: "(''a'', ?ts) \<in> set ?m" by simp
  have h3: "snd (brute_force ?m 10 3)
            = Inr [\<lparr>ip = ''a'', count = 3, first = 0, last' = 120\<rparr>,
                   \<lparr>ip = ''a'', count = 4, first = 3000, last' = 3020\<rparr>]"
    by code_simp
  have cs: "clusters (sort ?ts) (60 * 10) 3 0 = [(0, 2), (3, 6)]"
    by code_simp
  have f: "filter (\<lambda>inc. ip inc = ''a'')
             [\<lparr>ip = ''a'', count = 3, first = 0, last' = 120\<rparr>,
              \<lparr>ip = ''a'', count = 4, first = 3000, last' = 3020\<rparr>]
        = map (incident_of ''a'' (sort ?ts)) (clusters (sort ?ts) (60 * 10) 3 0)"
    using incidents_disjoint_increasing [OF h1 h2 h3] by (rule conjunct1)
  from h1 h2 h3 f cs show ?thesis by (intro conjI)
qed

text \<open>
  Claim C3. For a fixed dict of timestamp lists and a fixed window, a larger threshold
  never gives more incidents: if \<open>t1 \<le> t2\<close> then the list that \<^verbatim>\<open>brute_force\<close> returns
  with threshold \<open>t2\<close> is at most as long as the one it returns with threshold \<open>t1\<close>.
  Whether the call returns does not depend on the threshold.
\<close>

theorem threshold_monotone:
  assumes "t1 \<le> t2"
  shows "(\<forall>sus1 sus2.
            snd (brute_force per_ip max_minutes t1) = Inr sus1 \<and>
            snd (brute_force per_ip max_minutes t2) = Inr sus2 \<longrightarrow>
            length sus2 \<le> length sus1) \<and>
         (\<forall>e. (snd (brute_force per_ip max_minutes t1) = Inl e)
              = (snd (brute_force per_ip max_minutes t2) = Inl e))"
proof (intro conjI allI impI)
  fix sus1 sus2
  assume "snd (brute_force per_ip max_minutes t1) = Inr sus1 \<and>
          snd (brute_force per_ip max_minutes t2) = Inr sus2"
  then show "length sus2 \<le> length sus1"
    using brute_force_mono [OF assms] by blast
next
  fix e
  show "(snd (brute_force per_ip max_minutes t1) = Inl e)
        = (snd (brute_force per_ip max_minutes t2) = Inl e)"
    by (cases "timedelta_minutes max_minutes")
       (simp_all add: brute_force_raises brute_force_returns)
qed

theorem threshold_monotone_witness:
  "(5::int) \<le> 6 \<and>
   snd (brute_force [(''a'', [0, 60, 120, 180, 240])] 10 5)
     = Inr [\<lparr>ip = ''a'', count = 5, first = 0, last' = 240\<rparr>] \<and>
   snd (brute_force [(''a'', [0, 60, 120, 180, 240])] 10 6) = Inr [] \<and>
   length ([] :: incident list)
     \<le> length [\<lparr>ip = ''a'', count = 5, first = 0, last' = 240\<rparr>]"
proof -
  have h: "(5::int) \<le> 6" by simp
  have a: "snd (brute_force [(''a'', [0, 60, 120, 180, 240])] 10 5)
           = Inr [\<lparr>ip = ''a'', count = 5, first = 0, last' = 240\<rparr>]"
    by code_simp
  have b: "snd (brute_force [(''a'', [0, 60, 120, 180, 240])] 10 6) = Inr []"
    by code_simp
  from threshold_monotone [OF h, of "[(''a'', [0, 60, 120, 180, 240])]" 10] a b
  have "length ([] :: incident list)
        \<le> length [\<lparr>ip = ''a'', count = 5, first = 0, last' = 240\<rparr>]"
    by blast
  with h a b show ?thesis by (intro conjI)
qed

lemma clusters_simultaneous:
  assumes "sorted ts" and "window \<le> 0" and "(i, j) \<in> set (clusters ts window threshold i0)"
  shows "ts ! i = ts ! j"
proof (cases "i = j")
  case True
  then show ?thesis by simp
next
  case False
  from clusters_props [OF assms(3)]
  have p: "i \<le> j" "j < length ts" and jdef: "j = expand ts window i i" by blast+
  from False p(1) have "i < j" by simp
  moreover have "j \<le> expand ts window i i" using jdef by simp
  ultimately have "ts ! j - ts ! i \<le> window" by (rule expand_within)
  moreover have "ts ! i \<le> ts ! j" using assms(1) p by (intro sorted_nth_mono) simp_all
  ultimately show ?thesis using assms(2) by simp
qed

text \<open>
  Claim C4. A call of \<^verbatim>\<open>brute_force\<close> never runs forever: for every dict of timestamp
  lists, every threshold and every \<^verbatim>\<open>max_minutes\<close>, the call with its loops defined with no
  termination argument ends, with the result that \<open>brute_force\<close> computes. For every
  window that a \<^verbatim>\<open>timedelta\<close> can hold (\<^verbatim>\<open>max_minutes\<close> from \<open>-1439999998560\<close> to
  \<open>1439999999999\<close>), zero and negative windows too, it returns the incident list; with
  a zero or negative window every incident covers simultaneous timestamps only
  (its first and last timestamp are equal). For \<^verbatim>\<open>max_minutes\<close> outside that range no
  window exists: line 66 raises \<^verbatim>\<open>OverflowError\<close> before the loops.
\<close>

theorem brute_force_terminates:
  "brute_force_loop per_ip max_minutes threshold
     = Some (brute_force per_ip max_minutes threshold) \<and>
   (- 1439999998560 \<le> max_minutes \<and> max_minutes \<le> 1439999999999 \<longrightarrow>
      (\<exists>sus. snd (brute_force per_ip max_minutes threshold) = Inr sus \<and>
         (max_minutes \<le> 0 \<longrightarrow> (\<forall>inc \<in> set sus. first inc = last' inc)))) \<and>
   (max_minutes < - 1439999998560 \<or> 1439999999999 < max_minutes \<longrightarrow>
      brute_force per_ip max_minutes threshold = (per_ip, Inl OverflowError))"
proof (intro conjI impI)
  show "brute_force_loop per_ip max_minutes threshold
     = Some (brute_force per_ip max_minutes threshold)"
    by (rule brute_force_loop_eq)
next
  let ?w = "60 * max_minutes"
  let ?sus = "concat (map (detect_one ?w threshold) per_ip)"
  assume "- 1439999998560 \<le> max_minutes \<and> max_minutes \<le> 1439999999999"
  then have "timedelta_minutes max_minutes = Inr ?w"
    by (simp add: timedelta_minutes_range)
  then have r: "snd (brute_force per_ip max_minutes threshold) = Inr ?sus"
    by (simp add: brute_force_returns)
  have "first inc = last' inc" if "max_minutes \<le> 0" and "inc \<in> set ?sus" for inc
  proof -
    from that(1) have w: "?w \<le> 0" by simp
    from that(2) obtain e where "inc \<in> set (detect_one ?w threshold e)" by auto
    then obtain c where c: "c \<in> set (clusters (sort (snd e)) ?w threshold 0)"
      and inc: "inc = incident_of (fst e) (sort (snd e)) c"
      by (auto simp: detect_one_clusters)
    have "sort (snd e) ! fst c = sort (snd e) ! snd c"
      using c by (intro clusters_simultaneous [OF _ w, of _ _ _ threshold 0]) simp_all
    with inc show ?thesis by (simp add: incident_of_def)
  qed
  with r show "\<exists>sus. snd (brute_force per_ip max_minutes threshold) = Inr sus \<and>
         (max_minutes \<le> 0 \<longrightarrow> (\<forall>inc \<in> set sus. first inc = last' inc))"
    by blast
next
  assume "max_minutes < - 1439999998560 \<or> 1439999999999 < max_minutes"
  then have "timedelta_minutes max_minutes = Inl OverflowError"
    by (auto simp: timedelta_minutes_range)
  then show "brute_force per_ip max_minutes threshold = (per_ip, Inl OverflowError)"
    by (rule brute_force_raises)
qed

theorem brute_force_terminates_witness:
  "- 1439999998560 \<le> (0::int) \<and> (0::int) \<le> 1439999999999 \<and> (0::int) \<le> 0 \<and>
   brute_force_loop [(''a'', [4, 3, 3])] 0 2
     = Some ([(''a'', [3, 3, 4])], Inr [\<lparr>ip = ''a'', count = 2, first = 3, last' = 3\<rparr>]) \<and>
   first \<lparr>ip = ''a'', count = 2, first = 3, last' = 3\<rparr>
     = last' \<lparr>ip = ''a'', count = 2, first = 3, last' = 3\<rparr> \<and>
   (1439999999999::int) < 1440000000000 \<and>
   brute_force_loop [(''a'', [4, 3, 3])] 1440000000000 2
     = Some ([(''a'', [4, 3, 3])], Inl OverflowError)"
proof -
  have h: "- 1439999998560 \<le> (0::int) \<and> (0::int) \<le> 1439999999999" by simp
  have v: "brute_force [(''a'', [4, 3, 3])] 0 2
           = ([(''a'', [3, 3, 4])], Inr [\<lparr>ip = ''a'', count = 2, first = 3, last' = 3\<rparr>])"
    by code_simp
  have g: "(1439999999999::int) < 1440000000000" by simp
  from brute_force_terminates [of "[(''a'', [4, 3, 3])]" 0 2] v
  have a: "brute_force_loop [(''a'', [4, 3, 3])] 0 2
     = Some ([(''a'', [3, 3, 4])], Inr [\<lparr>ip = ''a'', count = 2, first = 3, last' = 3\<rparr>])"
    by simp
  from brute_force_terminates [of "[(''a'', [4, 3, 3])]" 1440000000000 2] g
  have b: "brute_force_loop [(''a'', [4, 3, 3])] 1440000000000 2
     = Some ([(''a'', [4, 3, 3])], Inl OverflowError)"
    by simp
  from h a b g show ?thesis by simp
qed

text \<open>
  Against claim C5 as stated: with \<^verbatim>\<open>max_minutes=-1\<close> and \<^verbatim>\<open>threshold=0\<close> nothing is
  rejected; detection runs and reports an incident.
\<close>

theorem nonpositive_config_runs:
  "brute_force_loop [(''a'', [0])] (- 1) 0
   = Some ([(''a'', [0])], Inr [\<lparr>ip = ''a'', count = 1, first = 0, last' = 0\<rparr>])"
proof -
  have "brute_force [(''a'', [0])] (- 1) 0
        = ([(''a'', [0])], Inr [\<lparr>ip = ''a'', count = 1, first = 0, last' = 0\<rparr>])"
    by code_simp
  then show ?thesis by (simp add: brute_force_loop_eq)
qed

lemma detect_all_cover:
  assumes "threshold \<le> 1"
  shows "sum_list (map count (concat (map (detect_one window threshold) per_ip)))
         = sum_list (map (\<lambda>e. int (length (snd e))) per_ip)"
  by (induction per_ip) (simp_all add: detect_one_cover [OF assms])

lemma main_returns:
  "\<exists>sus. snd (brute_force per_ip 10 5) = Inr sus \<and>
      main per_ip = Inr (sus, aggregate sus (fst (brute_force per_ip 10 5)))"
proof -
  have "timedelta_minutes 10 = Inr 600" by (simp add: timedelta_minutes_def)
  from brute_force_returns [OF this, of per_ip 5] show ?thesis
    by (simp add: main_def)
qed

text \<open>
  Claim C5, as amended. \<^verbatim>\<open>brute_force\<close> checks neither the threshold nor the window: for
  every threshold and every window that a \<^verbatim>\<open>timedelta\<close> can hold (\<^verbatim>\<open>max_minutes\<close> from
  \<open>-1439999998560\<close> to \<open>1439999999999\<close>), non-positive ones too, detection runs and
  returns; with a threshold of at most 1 every timestamp is counted in an incident (the
  counts add up to the number of timestamps). The one rejection is the
  \<^verbatim>\<open>OverflowError\<close> of the \<^verbatim>\<open>timedelta\<close> constructor for a \<^verbatim>\<open>max_minutes\<close> outside that
  range, on the positive side as on the negative. \<^verbatim>\<open>main\<close> runs detection with the
  constants \<^verbatim>\<open>max_minutes=10\<close> and \<^verbatim>\<open>threshold=5\<close> only, and there it returns.
\<close>

theorem no_config_check:
  "(- 1439999998560 \<le> max_minutes \<and> max_minutes \<le> 1439999999999 \<longrightarrow>
      (\<exists>sus. snd (brute_force per_ip max_minutes threshold) = Inr sus \<and>
         (threshold \<le> 1 \<longrightarrow>
            sum_list (map count sus) = sum_list (map (\<lambda>e. int (length (snd e))) per_ip)))) \<and>
   (max_minutes < - 1439999998560 \<or> 1439999999999 < max_minutes \<longrightarrow>
      snd (brute_force per_ip max_minutes threshold) = Inl OverflowError) \<and>
   (\<exists>sus top. main per_ip = Inr (sus, top) \<and> snd (brute_force per_ip 10 5) = Inr sus)"
proof (intro conjI impI)
  let ?w = "60 * max_minutes"
  let ?sus = "concat (map (detect_one ?w threshold) per_ip)"
  assume "- 1439999998560 \<le> max_minutes \<and> max_minutes \<le> 1439999999999"
  then have "timedelta_minutes max_minutes = Inr ?w"
    by (simp add: timedelta_minutes_range)
  then have "snd (brute_force per_ip max_minutes threshold) = Inr ?sus"
    by (simp add: brute_force_returns)
  moreover have "threshold \<le> 1 \<longrightarrow>
      sum_list (map count ?sus) = sum_list (map (\<lambda>e. int (length (snd e))) per_ip)"
    using detect_all_cover by blast
  ultimately
  show "\<exists>sus. snd (brute_force per_ip max_minutes threshold) = Inr sus \<and>
         (threshold \<le> 1 \<longrightarrow>
            sum_list (map count sus) = sum_list (map (\<lambda>e. int (length (snd e))) per_ip))"
    by blast
next
  assume "max_minutes < - 1439999998560 \<or> 1439999999999 < max_minutes"
  then have "timedelta_minutes max_minutes = Inl OverflowError"
    by (auto simp: timedelta_minutes_range)
  then show "snd (brute_force per_ip max_minutes threshold) = Inl OverflowError"
    by (simp add: brute_force_raises)
next
  show "\<exists>sus top. main per_ip = Inr (sus, top) \<and> snd (brute_force per_ip 10 5) = Inr sus"
    using main_returns [of per_ip] by blast
qed

theorem no_config_check_witness:
  "- 1439999998560 \<le> (- 1 :: int) \<and> (- 1 :: int) \<le> 1439999999999 \<and> (0::int) \<le> 1 \<and>
   snd (brute_force [(''a'', [5, 1]), (''b'', [9])] (- 1) 0)
     = Inr [\<lparr>ip = ''a'', count = 1, first = 1, last' = 1\<rparr>,
            \<lparr>ip = ''a'', count = 1, first = 5, last' = 5\<rparr>,
            \<lparr>ip = ''b'', count = 1, first = 9, last' = 9\<rparr>] \<and>
   sum_list (map count
     [\<lparr>ip = ''a'', count = 1, first = 1, last' = 1\<rparr>,
      \<lparr>ip = ''a'', count = 1, first = 5, last' = 5\<rparr>,
      \<lparr>ip = ''b'', count = 1, first = 9, last' = 9\<rparr>])
   = sum_list (map (\<lambda>e. int (length (snd e))) [(''a'', [5, 1 :: int]), (''b'', [9])])"
proof -
  have h: "- 1439999998560 \<le> (- 1 :: int) \<and> (- 1 :: int) \<le> 1439999999999" by simp
  have t: "(0::int) \<le> 1" by simp
  have v: "snd (brute_force [(''a'', [5, 1]), (''b'', [9])] (- 1) 0)
     = Inr [\<lparr>ip = ''a'', count = 1, first = 1, last' = 1\<rparr>,
            \<lparr>ip = ''a'', count = 1, first = 5, last' = 5\<rparr>,
            \<lparr>ip = ''b'', count = 1, first = 9, last' = 9\<rparr>]"
    by code_simp
  from no_config_check [of "- 1" "[(''a'', [5, 1]), (''b'', [9])]" 0] h t v
  have "sum_list (map count
     [\<lparr>ip = ''a'', count = 1, first = 1, last' = 1\<rparr>,
      \<lparr>ip = ''a'', count = 1, first = 5, last' = 5\<rparr>,
      \<lparr>ip = ''b'', count = 1, first = 9, last' = 9\<rparr>])
   = sum_list (map (\<lambda>e. int (length (snd e))) [(''a'', [5, 1 :: int]), (''b'', [9])])"
    by auto
  with h t v show ?thesis by (intro conjI) simp_all
qed

text \<open>
  Against claim C7 as stated: the list \<open>[2, 1]\<close> held by the dict is \<open>[1, 2]\<close> after the
  call.
\<close>

theorem brute_force_reorders_input:
  "fst (brute_force [(''a'', [2, 1])] 10 5) = [(''a'', [1, 2])] \<and>
   fst (brute_force [(''a'', [2, 1])] 10 5) \<noteq> [(''a'', [2, 1])]"
  by code_simp

text \<open>
  Claim C7, as amended. A call of \<^verbatim>\<open>brute_force\<close> with a window that a \<^verbatim>\<open>timedelta\<close> can
  hold (\<^verbatim>\<open>max_minutes\<close> from \<open>-1439999998560\<close> to \<open>1439999999999\<close>) leaves the keys of the
  dict and their order unchanged and replaces every timestamp list by its ascending sort.
  A call with \<^verbatim>\<open>max_minutes\<close> outside that range raises before it sorts and leaves the dict
  as it was. In both cases a dict whose lists are all sorted already is left as it was.
\<close>

theorem brute_force_sorts_in_place:
  "(- 1439999998560 \<le> max_minutes \<and> max_minutes \<le> 1439999999999 \<longrightarrow>
      fst (brute_force per_ip max_minutes threshold)
        = map (\<lambda>(ip_key, ts). (ip_key, sort ts)) per_ip) \<and>
   (max_minutes < - 1439999998560 \<or> 1439999999999 < max_minutes \<longrightarrow>
      fst (brute_force per_ip max_minutes threshold) = per_ip) \<and>
   map fst (fst (brute_force per_ip max_minutes threshold)) = map fst per_ip \<and>
   ((\<forall>(ip_key, ts) \<in> set per_ip. sorted ts) \<longrightarrow>
      fst (brute_force per_ip max_minutes threshold) = per_ip)"
proof -
  let ?d = "fst (brute_force per_ip max_minutes threshold)"
  let ?s = "map (\<lambda>(ip_key, ts). (ip_key, sort ts)) per_ip"
  have inr: "?d = ?s"
    if "- 1439999998560 \<le> max_minutes \<and> max_minutes \<le> 1439999999999"
  proof -
    from that have "timedelta_minutes max_minutes = Inr (60 * max_minutes)"
      by (simp add: timedelta_minutes_range)
    then show ?thesis by (simp add: brute_force_returns)
  qed
  have inl: "?d = per_ip"
    if "max_minutes < - 1439999998560 \<or> 1439999999999 < max_minutes"
  proof -
    from that have "timedelta_minutes max_minutes = Inl OverflowError"
      by (auto simp: timedelta_minutes_range)
    then show ?thesis by (simp add: brute_force_raises)
  qed
  have cases: "?d = ?s \<or> ?d = per_ip" using inr inl by linarith
  have keys: "map fst ?s = map fst per_ip" by (simp add: case_prod_beta comp_def)
  have srt: "?s = per_ip" if "\<forall>(ip_key, ts) \<in> set per_ip. sorted ts"
    using that by (intro map_idI) (auto simp: sort_key_id_if_sorted)
  from inr inl cases keys srt show ?thesis by auto
qed

theorem brute_force_sorts_in_place_witness:
  "sorted [1, 2 :: int] \<and>
   fst (brute_force [(''a'', [1, 2])] 10 5) = [(''a'', [1, 2])] \<and>
   - 1439999998560 \<le> (10::int) \<and> (10::int) \<le> 1439999999999 \<and>
   fst (brute_force [(''a'', [2, 1])] 10 5) = [(''a'', [1, 2])] \<and>
   (1439999999999::int) < 1440000000000 \<and>
   fst (brute_force [(''a'', [2, 1])] 1440000000000 5) = [(''a'', [2, 1])]"
proof -
  have h: "\<forall>(ip_key, ts) \<in> set [(''a'', [1, 2 :: int])]. sorted ts" by simp
  from brute_force_sorts_in_place [of 10 "[(''a'', [1, 2])]" 5] h
  have a: "fst (brute_force [(''a'', [1, 2])] 10 5) = [(''a'', [1, 2])]" by blast
  from brute_force_sorts_in_place [of 10 "[(''a'', [2, 1])]" 5]
  have b: "fst (brute_force [(''a'', [2, 1])] 10 5) = [(''a'', [1, 2])]" by simp
  from brute_force_sorts_in_place [of 1440000000000 "[(''a'', [2, 1])]" 5]
  have c: "fst (brute_force [(''a'', [2, 1])] 1440000000000 5) = [(''a'', [2, 1])]" by simp
  from a b c show ?thesis by simp
qed

section \<open>Properties of the aggregation\<close>

lemma sorted_reverse_descending:
  "sorted_wrt (\<lambda>p q. key q \<le> key p) (sorted_reverse key xs)"
proof -
  have "sorted (map (\<lambda>x. - key x) (sort_key (\<lambda>x. - key x) xs))"
    by (rule sorted_sort_key)
  then show ?thesis
    by (simp add: sorted_reverse_def sorted_map)
qed

lemma sorted_reverse_stable:
  "filter (\<lambda>p. key p = k) (sorted_reverse key xs) = filter (\<lambda>p. key p = k) xs"
  using sort_key_stable [of "\<lambda>x. - key x" "- k" xs]
  by (simp add: sorted_reverse_def)

lemma set_sorted_reverse: "set (sorted_reverse key xs) = set xs"
  by (simp add: sorted_reverse_def)

lemma remdups_drop_seen:
  "k \<in> set ys \<Longrightarrow> remdups (xs @ k # ys) = remdups (xs @ ys)"
  by (induction xs) auto

lemma summarize_keys:
  "distinct (map fst d) \<Longrightarrow>
   map fst (summarize incs d) = first_seen (map fst d @ map ip incs)"
proof (induction incs arbitrary: d)
  case Nil
  then show ?case by (simp add: first_seen_def distinct_remdups_id)
next
  case (Cons inc rest)
  let ?d = "AList.update (ip inc) (dict_get d (ip inc) 0 + count inc) d"
  have "distinct (map fst ?d)" using Cons.prems by (rule distinct_update)
  then have "map fst (summarize rest ?d) = first_seen (map fst ?d @ map ip rest)"
    by (rule Cons.IH)
  also have "\<dots> = first_seen (map fst d @ map ip (inc # rest))"
  proof (cases "ip inc \<in> set (map fst d)")
    case True
    then have "ip inc \<in> set (rev (map fst d))" by simp
    from remdups_drop_seen [OF this, of "rev (map ip rest)"] True
    show ?thesis by (simp add: first_seen_def update_keys)
  next
    case False
    then show ?thesis by (simp add: first_seen_def update_keys)
  qed
  finally show ?case by simp
qed

lemma summarize_distinct:
  "distinct (map fst d) \<Longrightarrow> distinct (map fst (summarize incs d))"
  by (induction incs arbitrary: d) (simp_all add: distinct_update)

lemma summarize_total:
  "dict_get (summarize incs d) k 0
   = dict_get d k 0 + sum_list (map count (filter (\<lambda>inc. ip inc = k) incs))"
proof (induction incs arbitrary: d)
  case Nil
  then show ?case by simp
next
  case (Cons inc rest)
  show ?case
    by (simp add: Cons.IH) (simp add: dict_get_def update_conv')
qed

lemma summarize_nonempty: "incs \<noteq> [] \<Longrightarrow> summarize incs [] \<noteq> []"
proof
  assume ne: "incs \<noteq> []" and "summarize incs [] = []"
  then have "map fst (summarize incs []) = []" by simp
  then have "first_seen (map ip incs) = []" by (simp add: summarize_keys)
  then have "set (first_seen (map ip incs)) = {}" by simp
  then show False using ne by (simp add: first_seen_def)
qed

lemma summarize_entry:
  assumes "p \<in> set (summarize incs [])"
  shows "snd p = sum_list (map count (filter (\<lambda>inc. ip inc = fst p) incs))"
proof -
  have "distinct (map fst (summarize incs []))" by (simp add: summarize_distinct)
  with assms have "map_of (summarize incs []) (fst p) = Some (snd p)" by simp
  then have a: "dict_get (summarize incs []) (fst p) 0 = snd p" by (simp add: dict_get_def)
  have b: "dict_get [] (fst p) (0::int) = 0" by (simp add: dict_get_def)
  from summarize_total [of incs "[]" "fst p"] a b show ?thesis by simp
qed

lemma raw_counts_distinct:
  "distinct (map fst d @ map fst m) \<Longrightarrow>
   raw_counts m d = d @ map (\<lambda>(ip_key, ts). (ip_key, int (length ts))) m"
proof (induction m d rule: raw_counts.induct)
  case (1 d)
  then show ?case by simp
next
  case (2 ip_key ts rest d)
  from "2.prems" have "ip_key \<notin> fst ` set d" by auto
  then have u: "AList.update ip_key (int (length ts)) d = d @ [(ip_key, int (length ts))]"
    by (induction d) auto
  from "2.prems" have "distinct (map fst (d @ [(ip_key, int (length ts))]) @ map fst rest)"
    by auto
  with "2.IH" u show ?case by simp
qed

lemma raw_counts_sorted_lists:
  "raw_counts (map (\<lambda>(ip_key, ts). (ip_key, sort ts)) m) d = raw_counts m d"
  by (induction m d rule: raw_counts.induct) simp_all

lemma fallback_incidents: "sus \<noteq> [] \<Longrightarrow> fallback (summarize sus []) per_ip = summarize sus []"
  by (simp add: fallback_def summarize_nonempty)

text \<open>
  Claim C9. The ranked summary is a function of the incident list (and of the dict, which
  only matters when there are no incidents): its pairs are in descending order of their
  totals, and pairs with equal totals stand in the order they have in the summary dict
  (the sort is stable). For a non-empty incident list the summary dict is the one built
  from the incidents, its keys are the addresses in the order in which the incident list
  first mentions them, and each total is the sum of the counts of the address's incidents.
\<close>

theorem aggregate_ranking:
  "sorted_wrt (\<lambda>p q. snd q \<le> snd p) (aggregate sus per_ip) \<and>
   (\<forall>k. filter (\<lambda>p. snd p = k) (aggregate sus per_ip)
        = filter (\<lambda>p. snd p = k) (fallback (summarize sus []) per_ip)) \<and>
   (sus \<noteq> [] \<longrightarrow>
      fallback (summarize sus []) per_ip = summarize sus [] \<and>
      map fst (summarize sus []) = first_seen (map ip sus) \<and>
      (\<forall>p \<in> set (aggregate sus per_ip).
         snd p = sum_list (map count (filter (\<lambda>inc. ip inc = fst p) sus))))"
proof (intro conjI allI impI ballI)
  show "sorted_wrt (\<lambda>p q. snd q \<le> snd p) (aggregate sus per_ip)"
    unfolding aggregate_def by (rule sorted_reverse_descending)
next
  fix k
  show "filter (\<lambda>p. snd p = k) (aggregate sus per_ip)
        = filter (\<lambda>p. snd p = k) (fallback (summarize sus []) per_ip)"
    unfolding aggregate_def by (rule sorted_reverse_stable)
next
  assume "sus \<noteq> []"
  then show "fallback (summarize sus []) per_ip = summarize sus []"
    by (rule fallback_incidents)
next
  show "map fst (summarize sus []) = first_seen (map ip sus)"
    by (simp add: summarize_keys)
next
  fix p
  assume "sus \<noteq> []" and "p \<in> set (aggregate sus per_ip)"
  then have "p \<in> set (summarize sus [])"
    by (simp add: aggregate_def set_sorted_reverse fallback_incidents)
  then show "snd p = sum_list (map count (filter (\<lambda>inc. ip inc = fst p) sus))"
    by (rule summarize_entry)
qed

theorem aggregate_ranking_witness:
  "[\<lparr>ip = ''b'', count = 5, first = 0, last' = 1\<rparr>,
    \<lparr>ip = ''a'', count = 7, first = 0, last' = 1\<rparr>,
    \<lparr>ip = ''c'', count = 6, first = 0, last' = 1\<rparr>,
    \<lparr>ip = ''b'', count = 2, first = 0, last' = 1\<rparr>,
    \<lparr>ip = ''d'', count = 6, first = 0, last' = 1\<rparr>] \<noteq> [] \<and>
   aggregate
     [\<lparr>ip = ''b'', count = 5, first = 0, last' = 1\<rparr>,
      \<lparr>ip = ''a'', count = 7, first = 0, last' = 1\<rparr>,
      \<lparr>ip = ''c'', count = 6, first = 0, last' = 1\<rparr>,
      \<lparr>ip = ''b'', count = 2, first = 0, last' = 1\<rparr>,
      \<lparr>ip = ''d'', count = 6, first = 0, last' = 1\<rparr>] []
   = [(''b'', 7), (''a'', 7), (''c'', 6), (''d'', 6)] \<and>
   map fst (summarize
     [\<lparr>ip = ''b'', count = 5, first = 0, last' = 1\<rparr>,
      \<lparr>ip = ''a'', count = 7, first = 0, last' = 1\<rparr>,
      \<lparr>ip = ''c'', count = 6, first = 0, last' = 1\<rparr>,
      \<lparr>ip = ''b'', count = 2, first = 0, last' = 1\<rparr>,
      \<lparr>ip = ''d'', count = 6, first = 0, last' = 1\<rparr>] [])
   = [''b'', ''a'', ''c'', ''d'']"
proof -
  let ?sus = "[\<lparr>ip = ''b'', count = 5, first = 0, last' = 1\<rparr>,
      \<lparr>ip = ''a'', count = 7, first = 0, last' = 1\<rparr>,
      \<lparr>ip = ''c'', count = 6, first = 0, last' = 1\<rparr>,
      \<lparr>ip = ''b'', count = 2, first = 0, last' = 1\<rparr>,
      \<lparr>ip = ''d'', count = 6, first = 0, last' = 1\<rparr>]"
  have h: "?sus \<noteq> []" by simp
  have a: "aggregate ?sus [] = [(''b'', 7), (''a'', 7), (''c'', 6), (''d'', 6)]"
    by code_simp
  have b: "first_seen (map ip ?sus) = [''b'', ''a'', ''c'', ''d'']"
    by code_simp
  from aggregate_ranking [of ?sus "[]"] h
  have "map fst (summarize ?sus []) = first_seen (map ip ?sus)" by blast
  with h a b show ?thesis by simp
qed

text \<open>
  Against claim C8 as stated: a dict with one incident of count 5 and a dict with no
  incident and 5 failed attempts give the same ranked summary; nothing in it says which
  of the two kinds of total it holds.
\<close>

theorem fallback_not_labelled:
  "main [(''a'', [0, 60, 120, 180, 240])]
     = Inr ([\<lparr>ip = ''a'', count = 5, first = 0, last' = 240\<rparr>], [(''a'', 5)]) \<and>
   main [(''a'', [0, 1000, 2000, 3000, 4000])] = Inr ([], [(''a'', 5)])"
  by code_simp

text \<open>
  Claim C8, as amended. \<^verbatim>\<open>main\<close> returns the incidents of the detector and the ranked
  summary, which is the aggregation of the incidents and the dict that detection left.
  When there are incidents it is the incident totals, sorted; when there are none and the
  dict is not empty it is the number of failed attempts of each address, sorted, in the
  same shape and with no label; when the dict is empty it is empty.
\<close>

theorem fallback_silent:
  "\<exists>sus top.
     main per_ip = Inr (sus, top) \<and>
     snd (brute_force per_ip 10 5) = Inr sus \<and>
     top = aggregate sus (fst (brute_force per_ip 10 5)) \<and>
     (sus \<noteq> [] \<longrightarrow> top = sorted_reverse snd (summarize sus [])) \<and>
     (sus = [] \<and> per_ip \<noteq> [] \<and> distinct (map fst per_ip) \<longrightarrow>
        top = sorted_reverse snd (map (\<lambda>(ip_key, ts). (ip_key, int (length ts))) per_ip)) \<and>
     (per_ip = [] \<longrightarrow> top = [])"
proof -
  from main_returns [of per_ip] obtain sus
    where r: "snd (brute_force per_ip 10 5) = Inr sus"
      and m: "main per_ip = Inr (sus, aggregate sus (fst (brute_force per_ip 10 5)))"
    by blast
  let ?top = "aggregate sus (fst (brute_force per_ip 10 5))"
  have d: "fst (brute_force per_ip 10 5) = map (\<lambda>(ip_key, ts). (ip_key, sort ts)) per_ip"
    using r by (rule brute_force_Inr(3))
  have a: "?top = sorted_reverse snd (summarize sus [])" if "sus \<noteq> []"
    using that by (simp add: aggregate_def fallback_incidents)
  have b: "?top
      = sorted_reverse snd (map (\<lambda>(ip_key, ts). (ip_key, int (length ts))) per_ip)"
    if "sus = [] \<and> per_ip \<noteq> [] \<and> distinct (map fst per_ip)"
  proof -
    from that have "raw_counts per_ip [] = map (\<lambda>(ip_key, ts). (ip_key, int (length ts))) per_ip"
      using raw_counts_distinct [of "[]" per_ip] by simp
    with that show ?thesis
      by (simp add: d aggregate_def fallback_def raw_counts_sorted_lists)
  qed
  have c: "?top = []" if "per_ip = []"
  proof -
    from that have "sus = []" by (simp add: brute_force_Inr(2) [OF r])
    moreover from that d have "fst (brute_force per_ip 10 5) = []" by simp
    ultimately show ?thesis
      by (simp add: aggregate_def fallback_def sorted_reverse_def)
  qed
  have "main per_ip = Inr (sus, ?top) \<and>
     snd (brute_force per_ip 10 5) = Inr sus \<and>
     ?top = aggregate sus (fst (brute_force per_ip 10 5)) \<and>
     (sus \<noteq> [] \<longrightarrow> ?top = sorted_reverse snd (summarize sus [])) \<and>
     (sus = [] \<and> per_ip \<noteq> [] \<and> distinct (map fst per_ip) \<longrightarrow>
        ?top = sorted_reverse snd (map (\<lambda>(ip_key, ts). (ip_key, int (length ts))) per_ip)) \<and>
     (per_ip = [] \<longrightarrow> ?top = [])"
  proof (intro conjI impI)
    show "main per_ip = Inr (sus, ?top)" by (rule m)
    show "snd (brute_force per_ip 10 5) = Inr sus" by (rule r)
    show "?top = aggregate sus (fst (brute_force per_ip 10 5))" by (rule refl)
    show "?top = sorted_reverse snd (summarize sus [])" if "sus \<noteq> []"
      using that by (rule a)
    show "?top
      = sorted_reverse snd (map (\<lambda>(ip_key, ts). (ip_key, int (length ts))) per_ip)"
      if "sus = [] \<and> per_ip \<noteq> [] \<and> distinct (map fst per_ip)"
      using that by (rule b)
    show "?top = []" if "per_ip = []" using that by (rule c)
  qed
  then show ?thesis by (intro exI)
qed

theorem fallback_silent_witness:
  "main [(''a'', [0, 1000, 2000, 3000, 4000]), (''b'', [7, 5000])]
     = Inr ([], [(''a'', 5), (''b'', 2)]) \<and>
   [(''a'', [0, 1000, 2000, 3000, 4000 :: int]), (''b'', [7, 5000])] \<noteq> [] \<and>
   distinct (map fst [(''a'', [0, 1000, 2000, 3000, 4000 :: int]), (''b'', [7, 5000])]) \<and>
   [(''a'', 5), (''b'', 2)]
     = sorted_reverse snd (map (\<lambda>(ip_key, ts). (ip_key, int (length ts)))
         [(''a'', [0, 1000, 2000, 3000, 4000 :: int]), (''b'', [7, 5000])])"
proof -
  let ?m = "[(''a'', [0, 1000, 2000, 3000, 4000 :: int]), (''b'', [7, 5000])]"
  have h: "main ?m = Inr ([], [(''a'', 5), (''b'', 2)])" by code_simp
  have n1: "?m \<noteq> []" by simp
  have n2: "distinct (map fst ?m)" by simp
  from fallback_silent [of ?m] obtain sus top
    where m: "main ?m = Inr (sus, top)"
      and f: "sus = [] \<and> ?m \<noteq> [] \<and> distinct (map fst ?m) \<longrightarrow>
        top = sorted_reverse snd (map (\<lambda>(ip_key, ts). (ip_key, int (length ts))) ?m)"
    by (elim exE conjE)
  from m h have s: "sus = []" and t: "top = [(''a'', 5), (''b'', 2)]"
    by (simp_all only: sum.inject prod.inject)
  from f s n1 n2
  have "top = sorted_reverse snd (map (\<lambda>(ip_key, ts). (ip_key, int (length ts))) ?m)"
    by (intro mp [OF f] conjI)
  with t have r: "[(''a'', 5), (''b'', 2)]
     = sorted_reverse snd (map (\<lambda>(ip_key, ts). (ip_key, int (length ts))) ?m)"
    by (simp only:)
  from h n1 n2 r show ?thesis by (intro conjI)
qed

section \<open>Properties of the parser\<close>

lemma index_error: "index xs x = Inl e \<Longrightarrow> e = ValueError"
  by (induction xs arbitrary: e) (auto split: if_splits sum.splits)

lemma index_found: "x \<in> set xs \<Longrightarrow> \<exists>n. index xs x = Inr n"
  by (induction xs) (auto split: sum.splits)

lemma index_absent: "x \<notin> set xs \<Longrightarrow> index xs x = Inl ValueError"
  by (induction xs) auto

lemma index_first:
  "index xs x = Inr n \<Longrightarrow> n < length xs \<and> xs ! n = x \<and> (\<forall>m < n. xs ! m \<noteq> x)"
proof (induction xs arbitrary: n)
  case Nil
  then show ?case by simp
next
  case (Cons y ys)
  show ?case
  proof (cases "y = x")
    case True
    with Cons.prems show ?thesis by simp
  next
    case False
    with Cons.prems obtain k where k: "index ys x = Inr k" "n = k + 1"
      by (auto split: sum.splits)
    from Cons.IH [OF k(1)] False k(2) show ?thesis
      by (auto simp: nth_Cons split: nat.splits)
  qed
qed

lemma startswith_append: "startswith s p \<Longrightarrow> \<exists>post. s = p @ post"
  by (induction s p rule: startswith.induct) auto

lemma contains_append: "contains sub s \<Longrightarrow> \<exists>pre post. s = pre @ sub @ post"
proof (induction sub s rule: contains.induct)
  case (1 sub)
  then show ?case by simp
next
  case (2 sub c cs)
  show ?case
  proof (cases "startswith (c # cs) sub")
    case True
    then obtain post where "c # cs = sub @ post" using startswith_append by blast
    then have "c # cs = [] @ sub @ post" by simp
    then show ?thesis by blast
  next
    case False
    with 2 obtain pre post where "cs = pre @ sub @ post" by auto
    then have "c # cs = (c # pre) @ sub @ post" by simp
    then show ?thesis by blast
  qed
qed

lemma split_from_space:
  "isspace c \<Longrightarrow> split_from cur (xs @ c # ys) = split_from cur xs @ split_from [] ys"
  by (induction xs arbitrary: cur) auto

lemma from_token: "contains '' from '' line \<Longrightarrow> ''from'' \<in> set (py_split line)"
proof -
  assume "contains '' from '' line"
  then obtain pre post where "line = pre @ '' from '' @ post"
    using contains_append by blast
  then have l: "line = pre @ CHR '' '' # (''from'' @ CHR '' '' # post)" by simp
  have sp: "isspace CHR '' ''" by (simp add: isspace_def)
  have "split_from [] ''from'' = [''from'']" by (simp add: isspace_def)
  then have "py_split line = split_from [] pre @ [''from''] @ split_from [] post"
    unfolding py_split_def l by (simp only: split_from_space [OF sp])
  then show ?thesis by simp
qed

lemma parse_auth_line_parsed:
  assumes "parse_auth_line strptime line = Inr (Some ts, origin, kind)"
  shows "extract_ip line (py_split line) = Inr origin"
    and "kind = event_type_of line"
    and "3 \<le> length (py_split line)"
    and "strptime (''2025 '' @ join '' '' (take 3 (py_split line))) ''%Y %b %d %H:%M:%S''
         = Inr ts"
  using assms
  by (auto simp: parse_auth_line_def Let_def split: if_splits sum.splits)

lemma strip_no_leading: "lstrip s chars = s \<Longrightarrow> strip s chars = rstrip s chars"
  by (simp add: strip_def)

lemma extract_ip_found:
  assumes ex: "extract_ip line parts = Inr origin" and c: "contains '' from '' line"
    and idx: "index parts ''from'' = Inr idx"
    and n: "idx + 1 < length parts" and l: "lstrip (parts ! (idx + 1)) '',;'' = parts ! (idx + 1)"
  shows "origin = Some (rstrip (parts ! (idx + 1)) '',;'')"
proof -
  from l have "strip (parts ! (idx + 1)) '',;'' = rstrip (parts ! (idx + 1)) '',;''"
    by (rule strip_no_leading)
  with ex c idx n show ?thesis
    by (simp add: extract_ip_def getitem_def)
qed

text \<open>
  \<^verbatim>\<open>strip(",;")\<close> works on both ends: on a token that begins with \<^verbatim>\<open>,\<close> or \<^verbatim>\<open>;\<close> it
  removes more than the trailing punctuation that the comment on line 50 speaks of.
\<close>

lemma strip_both_ends_example:
  "strip '',;203.0.113.45,'' '',;'' = ''203.0.113.45'' \<and>
   rstrip '',;203.0.113.45,'' '',;'' = '',;203.0.113.45''"
  by code_simp

lemma extract_ip_last:
  assumes "extract_ip line parts = Inr origin" and "contains '' from '' line"
    and "index parts ''from'' = Inr idx" and "\<not> idx + 1 < length parts"
  shows "origin = None"
  using assms by (simp add: extract_ip_def)

lemma extract_ip_absent:
  assumes "extract_ip line parts = Inr origin" and "\<not> contains '' from '' line"
  shows "origin = None"
  using assms by (simp add: extract_ip_def)

lemma extract_ip_total: "\<exists>r. extract_ip line parts = Inr r"
proof (cases "contains '' from '' line")
  case False
  then show ?thesis by (simp add: extract_ip_def)
next
  case True
  note c = this
  show ?thesis
  proof (cases "index parts ''from''")
    case (Inl e)
    then have "e = ValueError" by (rule index_error)
    with c Inl show ?thesis by (simp add: extract_ip_def)
  next
    case (Inr idx)
    with c show ?thesis by (simp add: extract_ip_def getitem_def)
  qed
qed

lemma parse_auth_line_short:
  "length (py_split line) < 3 \<Longrightarrow> parse_auth_line strptime line = Inr (None, None, ''other'')"
  by (simp add: parse_auth_line_def)

lemma parse_auth_line_bad_timestamp:
  "strptime (''2025 '' @ join '' '' (take 3 (py_split line))) ''%Y %b %d %H:%M:%S'' = Inl e \<Longrightarrow>
   parse_auth_line strptime line = Inr (None, None, ''other'')"
  by (simp add: parse_auth_line_def Let_def)

lemma parse_auth_line_good:
  "\<not> length (py_split line) < 3 \<Longrightarrow>
   strptime (''2025 '' @ join '' '' (take 3 (py_split line))) ''%Y %b %d %H:%M:%S'' = Inr ts \<Longrightarrow>
   extract_ip line (py_split line) = Inr r \<Longrightarrow>
   parse_auth_line strptime line = Inr (Some ts, r, event_type_of line)"
  by (simp add: parse_auth_line_def Let_def)

text \<open>
  Claim C6, as amended. For a line whose timestamp parses: if the line contains the
  substring \<^verbatim>\<open>" from "\<close>, the token \<^verbatim>\<open>from\<close> is found among the tokens; if a token follows
  its first occurrence and that token does not begin with \<^verbatim>\<open>,\<close> or \<^verbatim>\<open>;\<close>, the origin is
  that token with its trailing \<^verbatim>\<open>,\<close> and \<^verbatim>\<open>;\<close> removed; if no token follows, the origin is
  absent. If the line does not contain the substring \<^verbatim>\<open>" from "\<close>, the origin is absent.
  No case is an error.
\<close>

theorem parse_auth_line_origin:
  assumes "parse_auth_line strptime line = Inr (Some ts, origin, kind)"
  shows "(contains '' from '' line \<longrightarrow>
           (\<exists>idx. index (py_split line) ''from'' = Inr idx \<and>
              idx < length (py_split line) \<and> py_split line ! idx = ''from'' \<and>
              (idx + 1 < length (py_split line) \<and>
               lstrip (py_split line ! (idx + 1)) '',;'' = py_split line ! (idx + 1) \<longrightarrow>
                 origin = Some (rstrip (py_split line ! (idx + 1)) '',;'')) \<and>
              (\<not> idx + 1 < length (py_split line) \<longrightarrow> origin = None))) \<and>
         (\<not> contains '' from '' line \<longrightarrow> origin = None)"
proof (rule conjI)
  have ex: "extract_ip line (py_split line) = Inr origin"
    using assms by (rule parse_auth_line_parsed)
  show "contains '' from '' line \<longrightarrow>
           (\<exists>idx. index (py_split line) ''from'' = Inr idx \<and>
              idx < length (py_split line) \<and> py_split line ! idx = ''from'' \<and>
              (idx + 1 < length (py_split line) \<and>
               lstrip (py_split line ! (idx + 1)) '',;'' = py_split line ! (idx + 1) \<longrightarrow>
                 origin = Some (rstrip (py_split line ! (idx + 1)) '',;'')) \<and>
              (\<not> idx + 1 < length (py_split line) \<longrightarrow> origin = None))"
  proof
    assume c: "contains '' from '' line"
    then have "''from'' \<in> set (py_split line)" by (rule from_token)
    then have "\<exists>n. index (py_split line) ''from'' = Inr n" by (rule index_found)
    then obtain idx where idx: "index (py_split line) ''from'' = Inr idx" ..
    from index_first [OF idx]
    have f1: "idx < length (py_split line)" and f2: "py_split line ! idx = ''from''"
      by (rule conjunct1, rule conjunct2 [THEN conjunct1])
    have a: "idx + 1 < length (py_split line) \<and>
               lstrip (py_split line ! (idx + 1)) '',;'' = py_split line ! (idx + 1) \<longrightarrow>
                 origin = Some (rstrip (py_split line ! (idx + 1)) '',;'')"
    proof
      assume h: "idx + 1 < length (py_split line) \<and>
               lstrip (py_split line ! (idx + 1)) '',;'' = py_split line ! (idx + 1)"
      from ex c idx conjunct1 [OF h] conjunct2 [OF h]
      show "origin = Some (rstrip (py_split line ! (idx + 1)) '',;'')" by (rule extract_ip_found)
    qed
    have b: "\<not> idx + 1 < length (py_split line) \<longrightarrow> origin = None"
    proof
      assume "\<not> idx + 1 < length (py_split line)"
      with ex c idx show "origin = None" by (rule extract_ip_last)
    qed
    from idx f1 f2 a b
    show "\<exists>idx. index (py_split line) ''from'' = Inr idx \<and>
              idx < length (py_split line) \<and> py_split line ! idx = ''from'' \<and>
              (idx + 1 < length (py_split line) \<and>
               lstrip (py_split line ! (idx + 1)) '',;'' = py_split line ! (idx + 1) \<longrightarrow>
                 origin = Some (rstrip (py_split line ! (idx + 1)) '',;'')) \<and>
              (\<not> idx + 1 < length (py_split line) \<longrightarrow> origin = None)"
      by (intro exI conjI)
  qed
  show "\<not> contains '' from '' line \<longrightarrow> origin = None"
  proof
    assume "\<not> contains '' from '' line"
    with ex show "origin = None" by (rule extract_ip_absent)
  qed
qed

theorem parse_auth_line_origin_witness:
  "parse_auth_line strptime_example
     ''Mar 10 13:58:01 host1 sshd[1023]: Failed password for invalid user admin from 203.0.113.45, port 52344 ssh2''
   = Inr (Some 5925481, Some ''203.0.113.45'', ''failed'') \<and>
   contains '' from ''
     ''Mar 10 13:58:01 host1 sshd[1023]: Failed password for invalid user admin from 203.0.113.45, port 52344 ssh2'' \<and>
   index (py_split
     ''Mar 10 13:58:01 host1 sshd[1023]: Failed password for invalid user admin from 203.0.113.45, port 52344 ssh2'')
     ''from'' = Inr 11 \<and>
   py_split
     ''Mar 10 13:58:01 host1 sshd[1023]: Failed password for invalid user admin from 203.0.113.45, port 52344 ssh2''
     ! (11 + 1) = ''203.0.113.45,'' \<and>
   Some ''203.0.113.45''
   = Some (rstrip (py_split
       ''Mar 10 13:58:01 host1 sshd[1023]: Failed password for invalid user admin from 203.0.113.45, port 52344 ssh2''
       ! (11 + 1)) '',;'')"
proof -
  let ?l = "''Mar 10 13:58:01 host1 sshd[1023]: Failed password for invalid user admin from 203.0.113.45, port 52344 ssh2''"
  have h: "parse_auth_line strptime_example ?l
           = Inr (Some 5925481, Some ''203.0.113.45'', ''failed'')"
    by code_simp
  have c: "contains '' from '' ?l" by code_simp
  have i: "index (py_split ?l) ''from'' = Inr 11" by code_simp
  have t: "py_split ?l ! (11 + 1) = ''203.0.113.45,''" by code_simp
  have n: "11 + 1 < length (py_split ?l) \<and>
           lstrip (py_split ?l ! (11 + 1)) '',;'' = py_split ?l ! (11 + 1)"
    by code_simp
  from parse_auth_line_origin [OF h, THEN conjunct1, THEN mp, OF c]
  obtain idx where idx: "index (py_split ?l) ''from'' = Inr idx"
    and imp: "idx + 1 < length (py_split ?l) \<and>
               lstrip (py_split ?l ! (idx + 1)) '',;'' = py_split ?l ! (idx + 1) \<longrightarrow>
               Some ''203.0.113.45'' = Some (rstrip (py_split ?l ! (idx + 1)) '',;'')"
    by (elim exE conjE)
  from idx i have "idx = 11" by (simp only: sum.inject)
  with imp n have r: "Some ''203.0.113.45'' = Some (rstrip (py_split ?l ! (11 + 1)) '',;'')"
    by (simp only:)
  from h c i t r show ?thesis by (intro conjI)
qed

text \<open>
  Against claim C6 as stated: a line whose token \<^verbatim>\<open>from\<close> is followed by a tab has no
  origin although a token follows \<^verbatim>\<open>from\<close>, and a line whose timestamp does not parse
  has no origin although it has a token \<^verbatim>\<open>from\<close> with a token after it.
\<close>

theorem origin_guard_counterexample:
  "parse_auth_line strptime_example
     (''Mar 10 13:58:01 host1 sshd[1023]: Failed password for root from''
        @ [CHR 0x09] @ ''203.0.113.45 port 22 ssh2'')
   = Inr (Some 5925481, None, ''failed'') \<and>
   spec_origin
     (''Mar 10 13:58:01 host1 sshd[1023]: Failed password for root from''
        @ [CHR 0x09] @ ''203.0.113.45 port 22 ssh2'')
   = Some ''203.0.113.45'' \<and>
   parse_auth_line strptime_example ''no timestamp here from 203.0.113.45''
   = Inr (None, None, ''other'') \<and>
   spec_origin ''no timestamp here from 203.0.113.45'' = Some ''203.0.113.45''"
proof (intro conjI)
  show "parse_auth_line strptime_example
     (''Mar 10 13:58:01 host1 sshd[1023]: Failed password for root from''
        @ [CHR 0x09] @ ''203.0.113.45 port 22 ssh2'')
   = Inr (Some 5925481, None, ''failed'')"
    by code_simp
  show "spec_origin
     (''Mar 10 13:58:01 host1 sshd[1023]: Failed password for root from''
        @ [CHR 0x09] @ ''203.0.113.45 port 22 ssh2'')
   = Some ''203.0.113.45''"
    by code_simp
  show "parse_auth_line strptime_example ''no timestamp here from 203.0.113.45''
   = Inr (None, None, ''other'')"
    by code_simp
  show "spec_origin ''no timestamp here from 203.0.113.45'' = Some ''203.0.113.45''"
    by code_simp
qed

text \<open>
  Claim C10. \<^verbatim>\<open>parse_auth_line\<close> raises nothing: for every behaviour of \<^verbatim>\<open>strptime\<close> and
  every line it returns a triple, and a triple without a timestamp has no origin and the
  kind \<^verbatim>\<open>other\<close>. In particular a line of fewer than three tokens (the empty line too) and
  a line whose timestamp \<^verbatim>\<open>strptime\<close> rejects give \<open>(None, None, ''other'')\<close>.
\<close>

theorem parse_auth_line_total:
  "(\<exists>ts origin kind. parse_auth_line strptime line = Inr (ts, origin, kind) \<and>
      (ts = None \<longrightarrow> origin = None \<and> kind = ''other'')) \<and>
   (length (py_split line) < 3 \<longrightarrow>
      parse_auth_line strptime line = Inr (None, None, ''other'')) \<and>
   ((\<exists>e. strptime (''2025 '' @ join '' '' (take 3 (py_split line))) ''%Y %b %d %H:%M:%S''
          = Inl e) \<longrightarrow>
      parse_auth_line strptime line = Inr (None, None, ''other''))"
proof (intro conjI)
  let ?s = "strptime (''2025 '' @ join '' '' (take 3 (py_split line))) ''%Y %b %d %H:%M:%S''"
  have rejected: "\<exists>ts origin kind. parse_auth_line strptime line = Inr (ts, origin, kind) \<and>
      (ts = None \<longrightarrow> origin = None \<and> kind = ''other'')"
    if "parse_auth_line strptime line = Inr (None, None, ''other'')"
    using that by (intro exI [of _ None] exI [of _ "''other''"]) simp
  show "\<exists>ts origin kind. parse_auth_line strptime line = Inr (ts, origin, kind) \<and>
      (ts = None \<longrightarrow> origin = None \<and> kind = ''other'')"
  proof (cases "length (py_split line) < 3")
    case True
    then show ?thesis by (intro rejected parse_auth_line_short)
  next
    case False
    note long = this
    show ?thesis
    proof (cases ?s)
      case (Inl e)
      then show ?thesis by (intro rejected parse_auth_line_bad_timestamp)
    next
      case (Inr ts)
      obtain r where "extract_ip line (py_split line) = Inr r"
        using extract_ip_total ..
      with long Inr
      have "parse_auth_line strptime line = Inr (Some ts, r, event_type_of line)"
        by (rule parse_auth_line_good)
      then show ?thesis
        by (intro exI [of _ "Some ts"] exI [of _ r] exI [of _ "event_type_of line"]) simp
    qed
  qed
  show "length (py_split line) < 3 \<longrightarrow>
      parse_auth_line strptime line = Inr (None, None, ''other'')"
    by (intro impI parse_auth_line_short)
  show "(\<exists>e. ?s = Inl e) \<longrightarrow> parse_auth_line strptime line = Inr (None, None, ''other'')"
  proof
    assume "\<exists>e. ?s = Inl e"
    then obtain e where "?s = Inl e" ..
    then show "parse_auth_line strptime line = Inr (None, None, ''other'')"
      by (rule parse_auth_line_bad_timestamp)
  qed
qed

theorem parse_auth_line_total_witness:
  "length (py_split '''') < 3 \<and>
   parse_auth_line strptime_example '''' = Inr (None, None, ''other'') \<and>
   strptime_example (''2025 '' @ join '' '' (take 3 (py_split ''Feb 30 13:58:01 host1 from'')))
     ''%Y %b %d %H:%M:%S'' = Inl ValueError \<and>
   parse_auth_line strptime_example ''Feb 30 13:58:01 host1 from''
     = Inr (None, None, ''other'')"
proof -
  have h1: "length (py_split '''') < 3" by code_simp
  have h2: "strptime_example
      (''2025 '' @ join '' '' (take 3 (py_split ''Feb 30 13:58:01 host1 from'')))
      ''%Y %b %d %H:%M:%S'' = Inl ValueError"
    by code_simp
  have a: "parse_auth_line strptime_example '''' = Inr (None, None, ''other'')"
    using h1
    by (rule parse_auth_line_total [of strptime_example "''''",
          THEN conjunct2, THEN conjunct1, THEN mp])
  have "\<exists>e. strptime_example
      (''2025 '' @ join '' '' (take 3 (py_split ''Feb 30 13:58:01 host1 from'')))
      ''%Y %b %d %H:%M:%S'' = Inl e"
    using h2 by (rule exI)
  then have b: "parse_auth_line strptime_example ''Feb 30 13:58:01 host1 from''
           = Inr (None, None, ''other'')"
    by (rule parse_auth_line_total [of strptime_example "''Feb 30 13:58:01 host1 from''",
          THEN conjunct2, THEN conjunct2, THEN mp])
  from h1 a h2 b show ?thesis by (intro conjI)
qed

end
